theory Spec2Isabelle
  imports Main "HOL-Library.Word"
begin

unbundle bit_operations_syntax

section \<open>The Trusty log ring buffer and its consumer (drivers/trusty/trusty-log.c)\<close>

subsection \<open>Data model\<close>

type_synonym u32 = "32 word"
type_synonym size_t = "64 word"

text \<open>
  Modelled from the spec: \<^verbatim>\<open>struct log_rb\<close> is declared in \<^verbatim>\<open>trusty-log.h\<close>, which is not
  among the sources. It is the ring shared with the secure side, with the four fields the
  driver reads: the 32-bit counters \<^verbatim>\<open>alloc\<close> (reserved) and \<^verbatim>\<open>put\<close> (committed), the
  32-bit size \<^verbatim>\<open>sz\<close> (capacity), and \<^verbatim>\<open>data\<close>, the byte array that follows them in the
  shared pages.
\<close>

record log_rb =
  rb_alloc :: u32
  rb_put :: u32
  rb_sz :: u32
  rb_data :: string

text \<open>
  What the driver prints: \<^verbatim>\<open>WARN_ON\<close> of the size check, \<^verbatim>\<open>dev_err("log overflow.")\<close>
  and \<^verbatim>\<open>dev_info("%s", line_buffer)\<close>.
\<close>

datatype event = ConfigWarn | LogOverflow | LogLine string

text \<open>
  \<^verbatim>\<open>struct trusty_log_state\<close>, reduced to the fields the drain touches (\<^verbatim>\<open>get\<close> and
  \<^verbatim>\<open>line_buffer\<close>), together with the two pieces of kernel state the drain changes:
  the file-level \<^verbatim>\<open>trusty_log_rate_limit\<close> and the kernel log the \<^verbatim>\<open>dev_*\<close> calls
  append to. The rate limiter's own state type is left open.
\<close>

record 'r trusty_log_state =
  s_get :: u32
  line_buffer :: string
  rate_limit :: 'r
  dmesg :: "event list"

datatype fault = OutOfBounds

definition TRUSTY_LINE_BUFFER_SIZE :: nat where
  "TRUSTY_LINE_BUFFER_SIZE = 256"

abbreviation NL :: char where
  "NL \<equiv> CHR 0x0A"

abbreviation NUL :: char where
  "NUL \<equiv> CHR 0x00"

subsection \<open>Reading one line: \<^verbatim>\<open>log_read_line\<close>\<close>

text \<open>
  \<^verbatim>\<open>get & mask\<close>: \<^verbatim>\<open>get\<close> is an \<^verbatim>\<open>int\<close> and \<^verbatim>\<open>mask\<close> a \<^verbatim>\<open>size_t\<close>, so \<^verbatim>\<open>get\<close> is
  sign-extended to 64 bits before the conjunction.
\<close>

definition rb_index :: "size_t \<Rightarrow> u32 \<Rightarrow> nat" where
  "rb_index msk get = unat ((scast get :: size_t) AND msk)"

text \<open>\<^verbatim>\<open>log->data[idx]\<close>; a read outside the array is a fault.\<close>

definition rb_data_at :: "log_rb \<Rightarrow> nat \<Rightarrow> char option" where
  "rb_data_at log idx =
     (if idx < length (rb_data log) then Some (rb_data log ! idx) else None)"

text \<open>
  The \<^verbatim>\<open>for\<close> loop of \<^verbatim>\<open>log_read_line\<close>:
  \<^verbatim>\<open>for (i = 0; i < max_to_read && c != '\n';) s->line_buffer[i++] = c = log->data[get++ & mask];\<close>
  The loop index stays below 256, so it is a \<open>nat\<close>; \<^verbatim>\<open>get\<close> wraps as a 32-bit value.
\<close>

function log_read_loop ::
  "log_rb \<Rightarrow> size_t \<Rightarrow> nat \<Rightarrow> string \<Rightarrow> nat \<Rightarrow> u32 \<Rightarrow> char \<Rightarrow> (string \<times> nat) option"
where
  "log_read_loop log msk max_to_read buf i get c =
     (if i < max_to_read \<and> c \<noteq> NL then
        (case rb_data_at log (rb_index msk get) of
           None \<Rightarrow> None
         | Some c' \<Rightarrow> log_read_loop log msk max_to_read (buf[i := c']) (Suc i) (get + 1) c')
      else Some (buf, i))"
  by pat_completeness auto
termination
  by (relation "measure (\<lambda>(log, msk, max_to_read, buf, i, get, c). max_to_read - i)") auto

declare log_read_loop.simps [simp del]

text \<open>
  \<^verbatim>\<open>max_to_read = min_t(size_t, put - get, sizeof(s->line_buffer) - 1)\<close>: the difference is
  an \<^verbatim>\<open>int\<close>, converted to \<^verbatim>\<open>size_t\<close> by sign extension; \<^verbatim>\<open>mask = log->sz - 1\<close> is computed
  in 32 bits and then widened. The result is the new line buffer and the count \<^verbatim>\<open>i\<close>.
\<close>

definition log_read_line :: "string \<Rightarrow> log_rb \<Rightarrow> u32 \<Rightarrow> u32 \<Rightarrow> (string \<times> nat) option" where
  "log_read_line buf0 log put get =
     (let max_to_read = min (scast (put - get) :: size_t) (of_nat (TRUSTY_LINE_BUFFER_SIZE - 1));
          msk = (ucast (rb_sz log - 1) :: size_t)
      in case log_read_loop log msk (unat max_to_read) buf0 0 get NUL of
           None \<Rightarrow> None
         | Some (buf, i) \<Rightarrow> Some (buf[i := NUL], i))"

subsection \<open>The drain: \<^verbatim>\<open>trusty_dump_logs\<close>\<close>

text \<open>
  Modelled from the spec: \<^verbatim>\<open>is_power_of_2\<close> comes from \<^verbatim>\<open>linux/log2.h\<close>, which is not
  among the sources; the spec asks for a capacity that is a power of two. This is the
  kernel's test, a nonzero value with a single bit set.
\<close>

definition is_power_of_2 :: "u32 \<Rightarrow> bool" where
  "is_power_of_2 n = (n \<noteq> 0 \<and> n AND (n - 1) = 0)"

text \<open>The string that \<^verbatim>\<open>"%s"\<close> prints from a buffer: the bytes before the first NUL.\<close>

definition c_string :: "string \<Rightarrow> string" where
  "c_string buf = takeWhile (\<lambda>c. c \<noteq> NUL) buf"

text \<open>
  The body of the \<^verbatim>\<open>while\<close> loop, one turn: from the value of \<^verbatim>\<open>put\<close> read in the loop
  condition and the cursor \<^verbatim>\<open>get\<close> to the cursor and the state the next turn starts with.
  The ring is memory the secure side writes while the loop runs, so the body is given the
  ring twice: \<open>log1\<close> is the ring when the line is copied (after the first \<^verbatim>\<open>rmb()\<close>),
  \<open>log2\<close> the ring when \<^verbatim>\<open>log->alloc\<close> and \<^verbatim>\<open>log->sz\<close> are read (after the second).
  On overflow the body reports it and moves the cursor to \<^verbatim>\<open>alloc - log->sz\<close>
  (\<^verbatim>\<open>continue\<close>); otherwise it asks \<^verbatim>\<open>__ratelimit\<close>, the parameter \<open>ratelimit\<close>, a step
  function on the limiter's state, prints the line if allowed, and adds \<^verbatim>\<open>read_chars\<close> to
  the cursor.
\<close>

definition dump_body ::
  "('r \<Rightarrow> bool \<times> 'r) \<Rightarrow> log_rb \<Rightarrow> log_rb \<Rightarrow> u32 \<Rightarrow> u32 \<Rightarrow> 'r trusty_log_state
     \<Rightarrow> fault + u32 \<times> 'r trusty_log_state"
where
  "dump_body ratelimit log1 log2 put get s =
     (case log_read_line (line_buffer s) log1 put get of
        None \<Rightarrow> Inl OutOfBounds
      | Some (buf, read_chars) \<Rightarrow>
          let alloc = rb_alloc log2; sz = rb_sz log2 in
          if alloc - get > sz then
            Inr (alloc - sz, s\<lparr>line_buffer := buf, dmesg := dmesg s @ [LogOverflow]\<rparr>)
          else
            let (ok, r) = ratelimit (rate_limit s) in
            Inr (get + of_nat read_chars,
                 s\<lparr>line_buffer := buf, rate_limit := r,
                   dmesg := dmesg s @ (if ok then [LogLine (c_string buf)] else [])\<rparr>))"

text \<open>
  The \<^verbatim>\<open>while\<close> loop. The ring is given as a function \<open>shm\<close> from an observation clock to
  the ring's contents, and the clock advances at every point where the loop looks at the
  ring: \<open>shm t\<close> is the ring when \<^verbatim>\<open>log->put\<close> is read in the loop condition,
  \<open>shm (t + 1)\<close> when the line is copied, \<open>shm (t + 2)\<close> when \<^verbatim>\<open>log->alloc\<close> and
  \<^verbatim>\<open>log->sz\<close> are read; the next turn reads \<^verbatim>\<open>log->put\<close> from \<open>shm (t + 3)\<close>.
  A producer that is idle during the drain is the constant function.
  The loop may run forever: \<open>None\<close> is the drain that does not return.
\<close>

partial_function (option) dump_loop ::
  "('r \<Rightarrow> bool \<times> 'r) \<Rightarrow> (nat \<Rightarrow> log_rb) \<Rightarrow> nat \<Rightarrow> u32 \<Rightarrow> 'r trusty_log_state
     \<Rightarrow> (fault + u32 \<times> 'r trusty_log_state) option"
where
  "dump_loop ratelimit shm t get s =
     (let put = rb_put (shm t) in
      if put = get then Some (Inr (get, s))
      else
        case dump_body ratelimit (shm (t + 1)) (shm (t + 2)) put get s of
          Inl f \<Rightarrow> Some (Inl f)
        | Inr (get', s') \<Rightarrow> dump_loop ratelimit shm (t + 3) get' s')"

text \<open>
  \<^verbatim>\<open>trusty_dump_logs\<close>: the size check, the loop on a local copy of \<^verbatim>\<open>s->get\<close>, and the
  store of the local back into \<^verbatim>\<open>s->get\<close> once the loop has ended.
\<close>

definition trusty_dump_logs ::
  "('r \<Rightarrow> bool \<times> 'r) \<Rightarrow> (nat \<Rightarrow> log_rb) \<Rightarrow> 'r trusty_log_state
     \<Rightarrow> (fault + 'r trusty_log_state) option"
where
  "trusty_dump_logs ratelimit shm s =
     (if \<not> is_power_of_2 (rb_sz (shm 0)) then Some (Inr (s\<lparr>dmesg := dmesg s @ [ConfigWarn]\<rparr>))
      else
        case dump_loop ratelimit shm 1 (s_get s) s of
          None \<Rightarrow> None
        | Some (Inl f) \<Rightarrow> Some (Inl f)
        | Some (Inr (get, s')) \<Rightarrow> Some (Inr (s'\<lparr>s_get := get\<rparr>)))"

subsection \<open>Well-formed rings and the words of the specification\<close>

text \<open>
  The geometry the driver relies on: a nonzero size, and a data array of exactly that
  many bytes.
\<close>

definition ring_ok :: "log_rb \<Rightarrow> bool" where
  "ring_ok log = (rb_sz log \<noteq> 0 \<and> length (rb_data log) = unat (rb_sz log))"

text \<open>
  The bytes the ring holds at the \<open>n\<close> counter values from \<open>get\<close> on, each addressed as
  the specification writes it, \<^verbatim>\<open>data[counter & (capacity - 1)]\<close>.
\<close>

definition rb_window :: "log_rb \<Rightarrow> u32 \<Rightarrow> nat \<Rightarrow> string" where
  "rb_window log get n =
     map (\<lambda>k. rb_data log ! unat ((get + of_nat k) AND (rb_sz log - 1))) [0..<n]"

text \<open>
  The line the specification asks for: the bytes up to and including the first newline,
  or all the bytes when there is none.
\<close>

fun spec_first_line :: "string \<Rightarrow> string" where
  "spec_first_line [] = []"
| "spec_first_line (c # cs) = (if c = NL then [c] else c # spec_first_line cs)"

text \<open>
  The lines of a run of bytes, as the specification cuts them: each line ends after its
  newline, or after 255 bytes when no newline has come by then, and the next line starts
  with the byte after.
\<close>

function spec_lines :: "string \<Rightarrow> string list" where
  "spec_lines w =
     (if w = [] then []
      else let l = spec_first_line (take (TRUSTY_LINE_BUFFER_SIZE - 1) w)
           in l # spec_lines (drop (length l) w))"
  by pat_completeness auto
termination
proof (relation "measure length")
  show "wf (measure length)" by simp
next
  fix w :: string and l
  assume ne: "w \<noteq> []" and l: "l = spec_first_line (take (TRUSTY_LINE_BUFFER_SIZE - 1) w)"
  then obtain c cs where "take (TRUSTY_LINE_BUFFER_SIZE - 1) w = c # cs"
    by (cases w) (simp_all add: TRUSTY_LINE_BUFFER_SIZE_def)
  then have "l \<noteq> []" unfolding l by simp
  with ne show "(drop (length l) w, w) \<in> measure length" by simp
qed

declare spec_lines.simps [simp del]

text \<open>
  The rate limiter of the specification over a list of lines: every line asks the
  limiter once, in order, and is kept when the limiter allows it. The result is the
  lines kept and the limiter's state afterwards.
\<close>

fun spec_rate_limited :: "('r \<Rightarrow> bool \<times> 'r) \<Rightarrow> 'r \<Rightarrow> 'a list \<Rightarrow> 'a list \<times> 'r" where
  "spec_rate_limited rl r [] = ([], r)"
| "spec_rate_limited rl r (x # xs) =
     (let (ok, r') = rl r; (ys, r'') = spec_rate_limited rl r' xs
      in (if ok then x # ys else ys, r''))"

text \<open>
  A whole line for the line buffer: at most 255 bytes, of which the last, and no other,
  is a newline.
\<close>

definition spec_whole_line :: "string \<Rightarrow> bool" where
  "spec_whole_line l =
     (l \<noteq> [] \<and> length l \<le> TRUSTY_LINE_BUFFER_SIZE - 1 \<and> last l = NL \<and> NL \<notin> set (butlast l))"

text \<open>
  The drain as the specification describes it, told on the bytes the producer writes
  rather than on the ring. The producer's bytes are a stream: \<open>stream k\<close> is the byte
  number \<open>k\<close> written since the counters stood at a base value, \<open>P t\<close> and \<open>A t\<close> are the
  numbers of bytes committed and reserved by the observation \<open>t\<close>, \<open>G\<close> is the number of
  bytes consumed, and \<open>cap\<close> is the capacity. A turn that starts at the observation \<open>t\<close>
  ends the drain when consumed equals committed. Otherwise the turn takes as its line the
  bytes from \<open>G\<close> up to and including the first newline, but no more than 255 and none
  beyond \<open>P t\<close>, hands it to the rate limiter and consumes it; the next turn starts at the
  observation \<open>t + 3\<close>. The result is the number of bytes consumed at the end and the lines
  handed over, in order. The result is \<open>None\<close> when a look at the counters does not find
  consumed \<open>\<le>\<close> committed and reserved \<open>-\<close> consumed \<open>\<le>\<close> capacity (at \<open>t\<close>, where committed
  is read, and at \<open>t + 2\<close>, where reserved is read), and when the drain has not ended in
  \<open>k\<close> turns.
\<close>

fun spec_drain ::
  "nat \<Rightarrow> (nat \<Rightarrow> char) \<Rightarrow> (nat \<Rightarrow> nat) \<Rightarrow> (nat \<Rightarrow> nat) \<Rightarrow> nat \<Rightarrow> nat \<Rightarrow> nat
     \<Rightarrow> (nat \<times> string list) option"
where
  "spec_drain 0 stream P A cap t G = None"
| "spec_drain (Suc k) stream P A cap t G =
     (if P t < G \<or> G + cap < A t then None
      else if P t = G then Some (G, [])
      else if G + cap < A (t + 2) then None
      else
        let l = spec_first_line (map stream [G..<min (P t) (G + (TRUSTY_LINE_BUFFER_SIZE - 1))]) in
        case spec_drain k stream P A cap (t + 3) (G + length l) of
          None \<Rightarrow> None
        | Some (G', ls) \<Rightarrow> Some (G', l # ls))"

text \<open>
  Repeated drains of the specification: one drain for every element of the list, which
  is the observation at which that drain starts; each drain goes on from the bytes
  consumed by the one before.
\<close>

fun spec_repeat ::
  "nat \<Rightarrow> (nat \<Rightarrow> char) \<Rightarrow> (nat \<Rightarrow> nat) \<Rightarrow> (nat \<Rightarrow> nat) \<Rightarrow> nat \<Rightarrow> nat list \<Rightarrow> nat
     \<Rightarrow> (nat \<times> string list) option"
where
  "spec_repeat k stream P A cap [] G = Some (G, [])"
| "spec_repeat k stream P A cap (t0 # ts) G =
     (case spec_drain k stream (\<lambda>t. P (t0 + t)) (\<lambda>t. A (t0 + t)) cap 1 G of
        None \<Rightarrow> None
      | Some (G', ls) \<Rightarrow>
          (case spec_repeat k stream P A cap ts G' of
             None \<Rightarrow> None
           | Some (G'', ls') \<Rightarrow> Some (G'', ls @ ls')))"

subsection \<open>The producer\<close>

text \<open>
  Modelled from the spec: the producer runs in the secure side and its code is not among
  the sources. The specification has it append bytes to the ring, each stored at
  \<^verbatim>\<open>data[counter & (capacity - 1)]\<close>, advance the reserved counter (\<^verbatim>\<open>alloc\<close>) over the
  bytes it has begun to write, and then publish them by moving the committed counter
  (\<^verbatim>\<open>put\<close>) to the end of what is written.
\<close>

definition rb_put_byte :: "log_rb \<Rightarrow> char \<Rightarrow> log_rb" where
  "rb_put_byte log c =
     log\<lparr>rb_data := (rb_data log)[unat (rb_alloc log AND (rb_sz log - 1)) := c],
         rb_alloc := rb_alloc log + 1\<rparr>"

definition producer_write :: "log_rb \<Rightarrow> string \<Rightarrow> log_rb" where
  "producer_write log w =
     (let log' = foldl rb_put_byte log w in log'\<lparr>rb_put := rb_alloc log'\<rparr>)"

text \<open>
  A run of the two sides in turn: for every element of the list the producer writes and
  commits it, then is idle while the consumer drains once. The run stops with \<open>None\<close> if a
  drain faults or does not return.
\<close>

fun drain_session ::
  "('r \<Rightarrow> bool \<times> 'r) \<Rightarrow> string list \<Rightarrow> log_rb \<Rightarrow> 'r trusty_log_state
     \<Rightarrow> (log_rb \<times> 'r trusty_log_state) option"
where
  "drain_session rl [] log s = Some (log, s)"
| "drain_session rl (w # ws) log s =
     (case trusty_dump_logs rl (\<lambda>_. producer_write log w) s of
        Some (Inr s') \<Rightarrow> drain_session rl ws (producer_write log w) s'
      | _ \<Rightarrow> None)"

text \<open>
  Repeated drains of the driver while the producer runs: the ring is the schedule \<open>shm\<close>,
  and a drain that starts at the observation \<open>t0\<close> sees the ring from there on. The run
  stops with \<open>None\<close> if a drain faults or does not return.
\<close>

fun drain_repeat ::
  "('r \<Rightarrow> bool \<times> 'r) \<Rightarrow> (nat \<Rightarrow> log_rb) \<Rightarrow> nat list \<Rightarrow> 'r trusty_log_state
     \<Rightarrow> 'r trusty_log_state option"
where
  "drain_repeat rl shm [] s = Some s"
| "drain_repeat rl shm (t0 # ts) s =
     (case trusty_dump_logs rl (\<lambda>t. shm (t0 + t)) s of
        Some (Inr s') \<Rightarrow> drain_repeat rl shm ts s'
      | _ \<Rightarrow> None)"

subsection \<open>Concrete rings used as test inputs\<close>

text \<open>A ring of 16 bytes holding the committed line \<^verbatim>\<open>"hi\n"\<close> in a zeroed region.\<close>

definition ring_hi :: log_rb where
  "ring_hi = \<lparr>rb_alloc = 3, rb_put = 3, rb_sz = 16, rb_data = ''hi'' @ [NL] @ replicate 13 NUL\<rparr>"

text \<open>A ring of 16 bytes, none a newline, with 300 bytes committed.\<close>

definition ring_a :: log_rb where
  "ring_a = \<lparr>rb_alloc = 300, rb_put = 300, rb_sz = 16, rb_data = replicate 16 CHR ''a''\<rparr>"

text \<open>
  A ring of 16 bytes into which 20 bytes were written and committed while the cursor
  stood at 0: bytes 16 to 19 (\<^verbatim>\<open>"qrst"\<close>) have overwritten bytes 0 to 3.
\<close>

definition ring_over :: log_rb where
  "ring_over = \<lparr>rb_alloc = 20, rb_put = 20, rb_sz = 16, rb_data = ''qrstefghijklmnop''\<rparr>"

text \<open>
  A ring of 16 bytes in which the four bytes \<^verbatim>\<open>a\<close>, NUL, \<^verbatim>\<open>b\<close>, newline are committed.
\<close>

definition ring_nul :: log_rb where
  "ring_nul = \<lparr>rb_alloc = 4, rb_put = 4, rb_sz = 16,
                rb_data = [CHR ''a'', NUL, CHR ''b'', NL] @ replicate 12 NUL\<rparr>"

text \<open>A ring whose size, 12, is not a power of two.\<close>

definition ring_bad :: log_rb where
  "ring_bad = \<lparr>rb_alloc = 3, rb_put = 3, rb_sz = 12, rb_data = ''hi'' @ [NL] @ replicate 9 NUL\<rparr>"

text \<open>Two rate limiters without state: one allows every line, one denies every line.\<close>

definition rl_allow :: "unit \<Rightarrow> bool \<times> unit" where
  "rl_allow u = (True, ())"


text \<open>The driver state after \<^verbatim>\<open>trusty_log_probe\<close>: \<^verbatim>\<open>kzalloc\<close> zeroes it and \<^verbatim>\<open>get\<close> is 0.\<close>

definition s_init :: "unit trusty_log_state" where
  "s_init = \<lparr>s_get = 0, line_buffer = replicate 256 NUL, rate_limit = (), dmesg = []\<rparr>"

text \<open>A zeroed ring of 16 bytes into which nothing has been written yet.\<close>

definition ring_empty :: log_rb where
  "ring_empty = \<lparr>rb_alloc = 0, rb_put = 0, rb_sz = 16, rb_data = replicate 16 NUL\<rparr>"

text \<open>
  A producer that commits while the drain runs and then is idle: the line \<^verbatim>\<open>"ab\n"\<close> is
  committed before the drain starts, the line \<^verbatim>\<open>"cd\n"\<close> by the observation 3, in the
  first turn of the loop.
\<close>

definition shm_live :: "nat \<Rightarrow> log_rb" where
  "shm_live t =
     (if t < 3
      then \<lparr>rb_alloc = 3, rb_put = 3, rb_sz = 16, rb_data = ''ab'' @ [NL] @ replicate 13 NUL\<rparr>
      else \<lparr>rb_alloc = 6, rb_put = 6, rb_sz = 16,
             rb_data = ''ab'' @ [NL] @ ''cd'' @ [NL] @ replicate 10 NUL\<rparr>)"

text \<open>
  The bytes that producer writes, and the number of them committed by each observation
  (it reserves no more than it has committed).
\<close>

definition stream_live :: "nat \<Rightarrow> char" where
  "stream_live k = (if k < 6 then (''ab'' @ [NL] @ ''cd'' @ [NL]) ! k else NUL)"

definition committed_live :: "nat \<Rightarrow> nat" where
  "committed_live t = (if t < 3 then 3 else 6)"


text \<open>
  An idle ring of 16 bytes with 20 bytes committed and 10 more reserved; a cursor at 24
  stands between \<open>put\<close> and \<open>alloc\<close>.
\<close>

definition ring_ahead :: log_rb where
  "ring_ahead = \<lparr>rb_alloc = 30, rb_put = 20, rb_sz = 16, rb_data = replicate 16 CHR ''a''\<rparr>"

text \<open>
  A producer that is never idle: by every third observation it has written and committed
  one more one-byte line, an empty line ending in its newline. At the observation \<open>t\<close> the
  counters stand at \<open>t div 3 + 1\<close>.
\<close>

definition shm_busy :: "nat \<Rightarrow> log_rb" where
  "shm_busy t =
     \<lparr>rb_alloc = of_nat (t div 3) + 1, rb_put = of_nat (t div 3) + 1, rb_sz = 16,
      rb_data = replicate 16 NL\<rparr>"

text \<open>
  A ring of 16 bytes whose producer has committed 20 bytes and has reserved 16 more: at
  the cursor 0 the drain finds an overflow, and \<open>alloc - sz\<close> is the value of \<open>put\<close>.
\<close>

definition ring_jump :: log_rb where
  "ring_jump = \<lparr>rb_alloc = 36, rb_put = 20, rb_sz = 16, rb_data = ''qrstefghijklmnop''\<rparr>"

text \<open>
  A ring of 16 bytes whose producer has committed 20 bytes, has written 20 more without
  committing them, and is idle.
\<close>

definition ring_stall :: log_rb where
  "ring_stall = \<lparr>rb_alloc = 40, rb_put = 20, rb_sz = 16, rb_data = replicate 16 CHR ''a''\<rparr>"

section \<open>Properties\<close>

subsection \<open>Conversions between the integer types\<close>

lemma idx_eq: "((scast (g::u32) :: size_t) AND ucast (m :: u32)) = ucast (g AND m)"
proof (rule bit_word_eqI)
  fix n assume "n < LENGTH(64)"
  show "bit (scast g AND ucast m :: size_t) n = bit (ucast (g AND m) :: size_t) n"
  proof (cases "n < 32")
    case True
    then have "min 31 n = n" by simp
    with True show ?thesis by (simp add: bit_simps)
  next
    case False
    then have "\<not> bit m n" "\<not> bit (g AND m) n" by (auto dest: bit_imp_le_length)
    then show ?thesis by (simp add: bit_simps)
  qed
qed

lemma unat_ucast_up: "unat (ucast (x :: u32) :: size_t) = unat x"
proof -
  have "unat x < 2 ^ 32" using unsigned_less [of x, where ?'a = nat] by simp
  then have "unat x < 2 ^ 64" by (rule less_trans) simp
  then show ?thesis by (simp add: unsigned_ucast_eq take_bit_nat_eq_self)
qed

lemma rb_index_eq: "rb_index (ucast m) g = unat (g AND m)"
  by (simp add: rb_index_def idx_eq unat_ucast_up)

lemma rb_index_bound: "sz \<noteq> 0 \<Longrightarrow> rb_index (ucast (sz - 1)) g < unat (sz :: u32)"
proof -
  assume nz: "sz \<noteq> 0"
  have "unat (g AND (sz - 1)) \<le> unat (sz - 1)"
    by (rule word_and_le1 [THEN word_le_nat_alt [THEN iffD1]])
  also have "unat (sz - 1) < unat sz"
    using nz by (simp add: unat_minus_one unat_gt_0)
  finally show ?thesis by (simp add: rb_index_eq)
qed

lemma scast_low: "(scast (d :: u32) :: size_t) AND mask 32 = ucast d"
proof (rule bit_word_eqI)
  fix n assume "n < LENGTH(64)"
  show "bit (scast d AND mask 32 :: size_t) n = bit (ucast d :: size_t) n"
  proof (cases "n < 32")
    case True
    then have "min 31 n = n" by simp
    with True show ?thesis by (simp add: bit_simps)
  next
    case False
    then have "\<not> bit d n" by (auto dest: bit_imp_le_length)
    with False show ?thesis by (simp add: bit_simps)
  qed
qed

lemma unat_scast_ge: "unat (d :: u32) \<le> unat (scast d :: size_t)"
proof -
  have "unat (scast d AND mask 32 :: size_t) \<le> unat (scast d :: size_t)"
    by (rule word_and_le2 [THEN word_le_nat_alt [THEN iffD1]])
  then show ?thesis by (simp add: scast_low unat_ucast_up)
qed

lemma small_msb_clear: "unat (d :: u32) < 256 \<Longrightarrow> \<not> bit d 31"
proof -
  assume "unat d < 256"
  then have "d < 2 ^ 8" by (simp add: word_less_nat_alt)
  then have "d AND mask 8 = d" by (rule less_mask_eq)
  then have "bit d 31 = bit (d AND mask 8) 31" by simp
  then show ?thesis by (simp add: bit_simps)
qed

lemma scast_nonneg: "\<not> bit (d :: u32) 31 \<Longrightarrow> (scast d :: size_t) = ucast d"
proof (rule bit_word_eqI)
  fix n assume a: "\<not> bit d 31" "n < LENGTH(64)"
  show "bit (scast d :: size_t) n = bit (ucast d :: size_t) n"
  proof (cases "n < 32")
    case True
    then have "min 31 n = n" by simp
    with True show ?thesis by (simp add: bit_simps)
  next
    case False
    then have "\<not> bit d n" "min 31 n = 31" by (auto dest: bit_imp_le_length)
    with False a show ?thesis by (simp add: bit_simps)
  qed
qed

lemma unat_min: "unat (min a b :: size_t) = min (unat a) (unat b)"
  by (simp add: min_def word_le_nat_alt)

lemma max_to_read_eq: "unat (min (scast (d :: u32) :: size_t) 255) = min (unat d) 255"
proof (cases "unat d < 256")
  case True
  then show ?thesis by (simp add: unat_min scast_nonneg small_msb_clear unat_ucast_up)
next
  case False
  then have "255 \<le> unat d" by simp
  moreover from this have "255 \<le> unat (scast d :: size_t)"
    using unat_scast_ge [of d] by linarith
  ultimately show ?thesis by (simp add: unat_min)
qed

lemma sint_nonneg_unat:
  assumes "0 \<le> sint (d :: u32)"
  shows "int (unat d) = sint d"
proof -
  have "bit d 31 \<longleftrightarrow> sint d < 0" using bit_last_iff [of d] by simp
  with assms have nb: "\<not> bit (uint d) 31" by (simp add: bit_uint_iff)
  have e: "take_bit (Suc 31) (uint d) = 2 ^ 31 * of_bool (bit (uint d) 31) + take_bit 31 (uint d)"
    by (rule take_bit_Suc_from_most)
  have z: "of_bool (bit (uint d) 31) = (0 :: int)" using nb by simp
  have "take_bit (Suc 31) (uint d) = take_bit 31 (uint d)"
    by (simp only: e z mult_zero_right add_0)
  moreover have "take_bit (Suc 31) (uint d) = uint d"
  proof (rule take_bit_int_eq_self)
    show "0 \<le> uint d" by simp
    show "uint d < 2 ^ Suc 31" using uint_bounded [of d] by simp
  qed
  ultimately have t: "take_bit 31 (uint d) = uint d" by (rule trans [OF sym])
  have "sint d = signed_take_bit 31 (uint d)" by (simp add: sint_uint)
  also have "\<dots> = take_bit 31 (uint d)" using nb by (rule signed_take_bit_eq_if_positive)
  also note t
  finally have "sint d = uint d" .
  then show ?thesis by (simp only: uint_nat)
qed

subsection \<open>The copy loop\<close>

lemma read_loop_stop: "log_read_loop log msk m buf i g NL = Some (buf, i)"
  by (subst log_read_loop.simps) simp

lemma read_loop_end: "log_read_loop log msk i buf i g c = Some (buf, i)"
  by (subst log_read_loop.simps) simp

lemma rb_window_Suc:
  "rb_window log g (Suc k) =
     (rb_data log ! rb_index (ucast (rb_sz log - 1)) g) # rb_window log (g + 1) k"
proof -
  have "[0..<Suc k] = 0 # map Suc [0..<k]"
    by (simp add: upt_conv_Cons map_Suc_upt del: upt_Suc)
  then show ?thesis
    by (simp add: rb_window_def rb_index_eq comp_def add.commute add.left_commute del: upt_Suc)
qed

lemma read_loop_char:
  assumes ok: "ring_ok log"
  shows "c \<noteq> NL \<Longrightarrow> i + k \<le> length buf \<Longrightarrow>
         log_read_loop log (ucast (rb_sz log - 1)) (i + k) buf i g c =
           Some (take i buf @ spec_first_line (rb_window log g k)
                   @ drop (i + length (spec_first_line (rb_window log g k))) buf,
                 i + length (spec_first_line (rb_window log g k)))"
proof (induction k arbitrary: buf i g c)
  case 0
  then show ?case by (simp add: read_loop_end rb_window_def)
next
  case (Suc k)
  let ?c = "rb_data log ! rb_index (ucast (rb_sz log - 1)) g"
  have at: "rb_data_at log (rb_index (ucast (rb_sz log - 1)) g) = Some ?c"
    using ok rb_index_bound [of "rb_sz log" g] by (simp add: rb_data_at_def ring_ok_def)
  have ilt: "i < length buf" using Suc.prems by simp
  have step: "log_read_loop log (ucast (rb_sz log - 1)) (Suc (i + k)) buf i g c =
              log_read_loop log (ucast (rb_sz log - 1)) (Suc (i + k)) (buf[i := ?c]) (Suc i) (g + 1) ?c"
    using Suc.prems by (subst log_read_loop.simps) (simp add: at)
  have tk: "take (Suc i) (buf[i := ?c]) = take i buf @ [?c]"
    using ilt by (simp add: take_Suc_conv_app_nth)
  show ?case
  proof (cases "?c = NL")
    case True
    have "drop (Suc i) (buf[i := ?c]) = drop (Suc i) buf" by simp
    with True ilt show ?thesis
      by (simp add: step read_loop_stop rb_window_Suc upd_conv_take_nth_drop)
  next
    case False
    have "Suc i + k \<le> length (buf[i := ?c])" using Suc.prems by simp
    from Suc.IH [OF False this, of "g + 1"] False tk show ?thesis
      by (simp add: step rb_window_Suc)
  qed
qed


lemma spec_first_line_length: "length (spec_first_line w) \<le> length w"
  by (induction w) auto

lemma rb_window_length: "length (rb_window log g n) = n"
  by (simp add: rb_window_def)

lemma log_read_line_char:
  assumes ok: "ring_ok log" and len: "length buf0 = TRUSTY_LINE_BUFFER_SIZE"
  shows "log_read_line buf0 log put get =
           Some (spec_first_line (rb_window log get (min (unat (put - get)) 255))
                   @ NUL # drop (Suc (length (spec_first_line (rb_window log get (min (unat (put - get)) 255))))) buf0,
                 length (spec_first_line (rb_window log get (min (unat (put - get)) 255))))"
proof -
  let ?k = "min (unat (put - get)) 255"
  let ?fl = "spec_first_line (rb_window log get ?k)"
  have k: "0 + ?k \<le> length buf0" using len by (simp add: TRUSTY_LINE_BUFFER_SIZE_def)
  have fl: "length ?fl < length buf0"
    using spec_first_line_length [of "rb_window log get ?k"] len
    by (simp add: rb_window_length TRUSTY_LINE_BUFFER_SIZE_def)
  have "(NUL :: char) \<noteq> NL" by simp
  from read_loop_char [OF ok this k, of get]
  have loop: "log_read_loop log (ucast (rb_sz log - 1)) ?k buf0 0 get NUL =
          Some (?fl @ drop (length ?fl) buf0, length ?fl)" by simp
  have upd: "(?fl @ drop (length ?fl) buf0)[length ?fl := NUL] = ?fl @ NUL # drop (Suc (length ?fl)) buf0"
    using fl by (simp add: list_update_append Cons_nth_drop_Suc [symmetric] del: spec_first_line.simps)
  have c: "(of_nat (TRUSTY_LINE_BUFFER_SIZE - 1) :: size_t) = 255"
    by (simp add: TRUSTY_LINE_BUFFER_SIZE_def)
  show ?thesis
    unfolding log_read_line_def Let_def
    by (simp only: c max_to_read_eq loop upd option.case prod.case)
qed


lemma spec_first_line_no_nl: "NL \<notin> set w \<Longrightarrow> spec_first_line w = w"
  by (induction w) auto

lemma spec_first_line_nl:
  "NL \<in> set w \<Longrightarrow> spec_first_line w = takeWhile (\<lambda>c. c \<noteq> NL) w @ [NL]"
  by (induction w) auto

lemma spec_first_line_nonempty: "w \<noteq> [] \<Longrightarrow> spec_first_line w \<noteq> []"
  by (cases w) auto

lemma rb_window_set: "ring_ok log \<Longrightarrow> set (rb_window log g n) \<subseteq> set (rb_data log)"
  using rb_index_bound [of "rb_sz log"]
  by (auto simp: rb_window_def ring_ok_def rb_index_eq)

lemma c_string_nul: "c_string (w @ NUL # r) = c_string w"
  by (induction w) (simp_all add: c_string_def)

lemma spec_first_line_prefix: "take (length (spec_first_line w)) w = spec_first_line w"
  by (induction w) auto

lemma spec_first_line_stop:
  "NL \<notin> set (butlast (spec_first_line w)) \<and>
   (spec_first_line w = w \<or> (spec_first_line w \<noteq> [] \<and> last (spec_first_line w) = NL))"
  by (induction w) auto

subsection \<open>What \<^verbatim>\<open>log_read_line\<close> returns\<close>

text \<open>
  C3: on a well-formed ring and a 256-byte line buffer, \<^verbatim>\<open>log_read_line\<close> returns a count
  \<open>n\<close> of at most \<open>min (put - get) 255\<close>. The first \<open>n\<close> bytes of the buffer are the bytes
  found from \<^verbatim>\<open>data[get & (sz - 1)]\<close> on, in order; none of them but the last is a newline;
  the copy stopped because \<open>n\<close> reached \<open>min (put - get) 255\<close> or because the last byte
  copied is a newline; a NUL is written at index \<open>n\<close>. So the bytes copied are the
  specification's line of that window. In particular, when at least 255 bytes are
  available and the first 255 hold no newline, exactly 255 bytes are consumed and the
  printed line is those bytes and no more.
  The difference \<open>put - get\<close> is read as an unsigned number, which is the signed
  difference of the two \<^verbatim>\<open>int\<close> arguments whenever that is not negative.
\<close>

theorem log_read_line_spec:
  assumes "ring_ok log" and "length buf0 = TRUSTY_LINE_BUFFER_SIZE"
  shows "\<exists>buf n. log_read_line buf0 log put get = Some (buf, n) \<and>
           n \<le> min (unat (put - get)) (TRUSTY_LINE_BUFFER_SIZE - 1) \<and>
           (\<forall>k<n. buf ! k = rb_data log ! unat ((get + of_nat k) AND (rb_sz log - 1))) \<and>
           NL \<notin> set (take (n - 1) buf) \<and>
           (n = min (unat (put - get)) (TRUSTY_LINE_BUFFER_SIZE - 1) \<or> (0 < n \<and> buf ! (n - 1) = NL)) \<and>
           buf ! n = NUL \<and> length buf = TRUSTY_LINE_BUFFER_SIZE \<and>
           take n buf = spec_first_line (rb_window log get (min (unat (put - get)) (TRUSTY_LINE_BUFFER_SIZE - 1))) \<and>
           (TRUSTY_LINE_BUFFER_SIZE - 1 \<le> unat (put - get) \<and>
              NL \<notin> set (rb_window log get (TRUSTY_LINE_BUFFER_SIZE - 1)) \<longrightarrow>
              n = TRUSTY_LINE_BUFFER_SIZE - 1 \<and> c_string buf = c_string (rb_window log get (TRUSTY_LINE_BUFFER_SIZE - 1))) \<and>
           (0 \<le> sint (put - get) \<longrightarrow> int (unat (put - get)) = sint (put - get))"
proof -
  let ?m = "min (unat (put - get)) 255"
  let ?w = "rb_window log get ?m"
  let ?fl = "spec_first_line ?w"
  let ?buf = "?fl @ NUL # drop (Suc (length ?fl)) buf0"
  have c: "TRUSTY_LINE_BUFFER_SIZE - 1 = 255" by (simp add: TRUSTY_LINE_BUFFER_SIZE_def)
  have rd: "log_read_line buf0 log put get = Some (?buf, length ?fl)"
    by (rule log_read_line_char [OF assms])
  have le: "length ?fl \<le> ?m"
    using spec_first_line_length [of ?w] by (simp add: rb_window_length)
  have len: "length ?buf = TRUSTY_LINE_BUFFER_SIZE"
    using le assms(2) by (simp add: TRUSTY_LINE_BUFFER_SIZE_def)
  have nul: "?buf ! length ?fl = NUL" by (simp add: nth_append)
  have tk: "take (length ?fl) ?buf = ?fl" by simp
  have src: "\<forall>k<length ?fl. ?buf ! k = rb_data log ! unat ((get + of_nat k) AND (rb_sz log - 1))"
  proof (intro allI impI)
    fix k assume k: "k < length ?fl"
    then have "?buf ! k = ?fl ! k" by (simp add: nth_append)
    also have "\<dots> = take (length ?fl) ?w ! k" by (simp only: spec_first_line_prefix)
    also have "\<dots> = ?w ! k" using k by simp
    also have "\<dots> = rb_data log ! unat ((get + of_nat k) AND (rb_sz log - 1))"
      using k le by (simp add: rb_window_def)
    finally show "?buf ! k = rb_data log ! unat ((get + of_nat k) AND (rb_sz log - 1))" .
  qed
  have "take (length ?fl - 1) ?buf = butlast ?fl"
    by (simp add: butlast_conv_take)
  then have nonl: "NL \<notin> set (take (length ?fl - 1) ?buf)"
    using spec_first_line_stop [of ?w] by simp
  have stop: "length ?fl = ?m \<or> (0 < length ?fl \<and> ?buf ! (length ?fl - 1) = NL)"
  proof (cases "?fl = ?w")
    case True
    then have "length ?fl = length ?w" by simp
    then show ?thesis by (simp only: rb_window_length) simp
  next
    case False
    with spec_first_line_stop [of ?w] have ne: "?fl \<noteq> []" and l: "last ?fl = NL" by auto
    then have "?buf ! (length ?fl - 1) = NL" by (simp add: nth_append last_conv_nth)
    with ne show ?thesis by simp
  qed
  have full: "length ?fl = 255 \<and> c_string ?buf = c_string (rb_window log get 255)"
    if "255 \<le> unat (put - get)" and "NL \<notin> set (rb_window log get 255)"
  proof -
    have m: "?m = 255" using that(1) by simp
    have "?fl = rb_window log get 255"
      unfolding m using that(2) by (rule spec_first_line_no_nl)
    then show ?thesis by (simp only: c_string_nul rb_window_length)
  qed
  show ?thesis
    unfolding c
    apply (rule exI [of _ ?buf], rule exI [of _ "length ?fl"])
    apply (intro conjI)
             apply (rule rd)
            apply (rule le)
           apply (rule src)
          apply (rule nonl)
         apply (rule stop)
        apply (rule nul)
       apply (rule len)
      apply (rule tk)
     apply (rule impI, erule conjE, rule full, assumption+)
    apply (rule impI, erule sint_nonneg_unat)
    done
qed


theorem log_read_line_spec_witness:
  "ring_ok ring_a \<and> length (replicate 256 NUL) = TRUSTY_LINE_BUFFER_SIZE \<and>
   TRUSTY_LINE_BUFFER_SIZE - 1 \<le> unat (300 - 0 :: u32) \<and>
   NL \<notin> set (rb_window ring_a 0 (TRUSTY_LINE_BUFFER_SIZE - 1)) \<and>
   (\<exists>buf. log_read_line (replicate 256 NUL) ring_a 300 0 = Some (buf, 255) \<and> buf ! 255 = NUL)"
proof -
  have ok: "ring_ok ring_a" by (simp add: ring_ok_def ring_a_def)
  have len: "length (replicate 256 NUL) = TRUSTY_LINE_BUFFER_SIZE"
    by (simp add: TRUSTY_LINE_BUFFER_SIZE_def)
  have d: "TRUSTY_LINE_BUFFER_SIZE - 1 \<le> unat (300 - 0 :: u32)"
    by (simp add: TRUSTY_LINE_BUFFER_SIZE_def)
  have nl: "NL \<notin> set (rb_window ring_a 0 (TRUSTY_LINE_BUFFER_SIZE - 1))"
    using rb_window_set [OF ok, of 0 "TRUSTY_LINE_BUFFER_SIZE - 1"] by (auto simp: ring_a_def)
  from log_read_line_spec [OF ok len, of 300 0] d nl
  have "\<exists>buf. log_read_line (replicate 256 NUL) ring_a 300 0 = Some (buf, 255) \<and> buf ! 255 = NUL"
    by (auto simp: TRUSTY_LINE_BUFFER_SIZE_def)
  with ok len d nl show ?thesis by blast
qed

text \<open>
  C10, as amended: the newline that ends the copy is itself stored in the line buffer,
  right before the NUL, and is counted in the result (no newline stands before it).
  What is printed is the copied bytes up to the first NUL among them. So a printed line
  that ended at a newline has the newline as its last character when no NUL byte was
  copied, and does not contain it when one was. Whenever \<open>put\<close> differs from \<open>get\<close>,
  the count is at least 1.
\<close>

theorem log_read_line_newline:
  assumes "ring_ok log" and "length buf0 = TRUSTY_LINE_BUFFER_SIZE"
  shows "\<exists>buf n. log_read_line buf0 log put get = Some (buf, n) \<and> buf ! n = NUL \<and>
           c_string buf = c_string (take n buf) \<and>
           (put \<noteq> get \<longrightarrow> 1 \<le> n) \<and>
           (NL \<in> set (rb_window log get (min (unat (put - get)) (TRUSTY_LINE_BUFFER_SIZE - 1))) \<longrightarrow>
              1 \<le> n \<and> buf ! (n - 1) = NL \<and> NL \<notin> set (take (n - 1) buf) \<and>
              (NUL \<notin> set (take n buf) \<longrightarrow> c_string buf = take n buf \<and> last (c_string buf) = NL) \<and>
              (NUL \<in> set (take n buf) \<longrightarrow> NL \<notin> set (c_string buf)))"
proof -
  let ?w = "rb_window log get (min (unat (put - get)) 255)"
  let ?fl = "spec_first_line ?w"
  let ?buf = "?fl @ NUL # drop (Suc (length ?fl)) buf0"
  have c: "TRUSTY_LINE_BUFFER_SIZE - 1 = 255" by (simp add: TRUSTY_LINE_BUFFER_SIZE_def)
  have rd: "log_read_line buf0 log put get = Some (?buf, length ?fl)"
    by (rule log_read_line_char [OF assms])
  have nul: "?buf ! length ?fl = NUL" by (simp add: nth_append)
  have tk: "take (length ?fl) ?buf = ?fl" by simp
  have cs: "c_string ?buf = c_string (take (length ?fl) ?buf)"
    by (simp only: tk c_string_nul)
  have pos: "1 \<le> length ?fl" if "put \<noteq> get"
  proof -
    from that have "0 < unat (put - get)" by (simp add: unat_gt_0)
    then have "?w \<noteq> []" by (simp add: rb_window_def)
    then have "?fl \<noteq> []" by (rule spec_first_line_nonempty)
    then show ?thesis by (cases ?fl) simp_all
  qed
  have nl: "1 \<le> length ?fl \<and> ?buf ! (length ?fl - 1) = NL \<and>
            NL \<notin> set (take (length ?fl - 1) ?buf) \<and>
            (NUL \<notin> set (take (length ?fl) ?buf) \<longrightarrow>
               c_string ?buf = take (length ?fl) ?buf \<and> last (c_string ?buf) = NL) \<and>
            (NUL \<in> set (take (length ?fl) ?buf) \<longrightarrow> NL \<notin> set (c_string ?buf))"
    if "NL \<in> set ?w"
  proof -
    let ?h = "takeWhile (\<lambda>c. c \<noteq> NL) ?w"
    have fl: "?fl = ?h @ [NL]" using that by (rule spec_first_line_nl)
    have a: "1 \<le> length ?fl" by (simp add: fl)
    have b: "?buf ! (length ?fl - 1) = NL"
      by (simp only: fl) (simp add: nth_append)
    have "take (length ?fl - 1) ?buf = ?h" by (simp only: fl) simp
    moreover have h: "NL \<notin> set ?h" by (auto dest: set_takeWhileD)
    ultimately have d: "NL \<notin> set (take (length ?fl - 1) ?buf)" by simp
    have e: "c_string ?buf = take (length ?fl) ?buf \<and> last (c_string ?buf) = NL"
      if "NUL \<notin> set (take (length ?fl) ?buf)"
    proof -
      from that have "NUL \<notin> set ?fl" by simp
      then have "c_string ?fl = ?fl" by (auto simp: c_string_def)
      then have "c_string ?buf = ?fl" by (simp only: c_string_nul)
      then show ?thesis by (simp add: fl)
    qed
    have f: "NL \<notin> set (c_string ?buf)" if "NUL \<in> set (take (length ?fl) ?buf)"
    proof -
      from that have "NUL \<in> set ?fl" by (simp only: tk)
      then have "NUL \<in> set ?h" by (simp add: fl)
      then have "takeWhile (\<lambda>c. c \<noteq> NUL) (?h @ [NL]) = takeWhile (\<lambda>c. c \<noteq> NUL) ?h"
        by (simp add: takeWhile_append1)
      then have "c_string ?fl = takeWhile (\<lambda>c. c \<noteq> NUL) ?h"
        by (simp only: c_string_def fl)
      then have "set (c_string ?buf) \<subseteq> set ?h"
        by (simp only: c_string_nul) (auto dest: set_takeWhileD)
      with h show ?thesis by blast
    qed
    from a b d e f show ?thesis by blast
  qed
  show ?thesis
    unfolding c
    apply (rule exI [of _ ?buf], rule exI [of _ "length ?fl"])
    apply (intro conjI)
        apply (rule rd)
       apply (rule nul)
      apply (rule cs)
     apply (rule impI, erule pos)
    apply (rule impI, erule nl)
    done
qed

theorem log_read_line_newline_witness:
  "ring_ok ring_hi \<and> length (replicate 256 NUL) = TRUSTY_LINE_BUFFER_SIZE \<and> (3 :: u32) \<noteq> 0 \<and>
   NL \<in> set (rb_window ring_hi 0 (min (unat (3 - 0 :: u32)) (TRUSTY_LINE_BUFFER_SIZE - 1))) \<and>
   (\<exists>buf. log_read_line (replicate 256 NUL) ring_hi 3 0 = Some (buf, 3) \<and>
      buf ! 2 = NL \<and> buf ! 3 = NUL \<and> c_string buf = ''hi'' @ [NL])"
proof -
  have ok: "ring_ok ring_hi" by (simp add: ring_ok_def ring_hi_def)
  have len: "length (replicate 256 NUL) = TRUSTY_LINE_BUFFER_SIZE"
    by (simp add: TRUSTY_LINE_BUFFER_SIZE_def)
  have w: "rb_window ring_hi 0 (min (unat (3 - 0 :: u32)) (TRUSTY_LINE_BUFFER_SIZE - 1)) = ''hi'' @ [NL]"
    by (simp add: rb_window_def ring_hi_def TRUSTY_LINE_BUFFER_SIZE_def upt_conv_Cons)
  have nl: "NL \<in> set (''hi'' @ [NL])" by simp
  from log_read_line_newline [OF ok len, of 3 0, unfolded w] nl
  obtain buf n where rd: "log_read_line (replicate 256 NUL) ring_hi 3 0 = Some (buf, n)"
    and p: "buf ! n = NUL" "1 \<le> n" "buf ! (n - 1) = NL"
    by blast
  have "log_read_line (replicate 256 NUL) ring_hi 3 0 =
          Some (''hi'' @ [NL] @ NUL # replicate 252 NUL, 3)"
    by (simp add: log_read_line_char [OF ok len] w [unfolded TRUSTY_LINE_BUFFER_SIZE_def, simplified])
  with rd p have "\<exists>buf. log_read_line (replicate 256 NUL) ring_hi 3 0 = Some (buf, 3) \<and>
      buf ! 2 = NL \<and> buf ! 3 = NUL \<and> c_string buf = ''hi'' @ [NL]"
    by (auto simp: c_string_def)
  with ok len w show ?thesis by simp
qed


subsection \<open>One turn of the drain loop\<close>

lemma dump_body_discard:
  "log_read_line (line_buffer s) log1 put get = Some (buf, n) \<Longrightarrow>
   rb_alloc log2 - get > rb_sz log2 \<Longrightarrow>
   dump_body rl log1 log2 put get s =
     Inr (rb_alloc log2 - rb_sz log2, s\<lparr>line_buffer := buf, dmesg := dmesg s @ [LogOverflow]\<rparr>)"
  by (simp add: dump_body_def Let_def)

lemma dump_body_emit:
  "log_read_line (line_buffer s) log1 put get = Some (buf, n) \<Longrightarrow>
   \<not> rb_alloc log2 - get > rb_sz log2 \<Longrightarrow>
   dump_body rl log1 log2 put get s =
     Inr (get + of_nat n,
          s\<lparr>line_buffer := buf, rate_limit := snd (rl (rate_limit s)),
            dmesg := dmesg s @ (if fst (rl (rate_limit s)) then [LogLine (c_string buf)] else [])\<rparr>)"
  by (simp add: dump_body_def Let_def split: prod.split)

lemma dump_loop_stop:
  "rb_put (shm t) = get \<Longrightarrow> dump_loop rl shm t get s = Some (Inr (get, s))"
  by (subst dump_loop.simps) simp

lemma dump_loop_turn:
  "rb_put (shm t) \<noteq> get \<Longrightarrow>
   dump_body rl (shm (t + 1)) (shm (t + 2)) (rb_put (shm t)) get s = Inr (get', s') \<Longrightarrow>
   dump_loop rl shm t get s = dump_loop rl shm (t + 3) get' s'"
  by (subst dump_loop.simps) (simp add: Let_def)

lemma dump_loop_discard:
  "rb_put (shm t) \<noteq> get \<Longrightarrow>
   log_read_line (line_buffer s) (shm (t + 1)) (rb_put (shm t)) get = Some (buf, n) \<Longrightarrow>
   rb_alloc (shm (t + 2)) - get > rb_sz (shm (t + 2)) \<Longrightarrow>
   dump_loop rl shm t get s =
     dump_loop rl shm (t + 3) (rb_alloc (shm (t + 2)) - rb_sz (shm (t + 2)))
       (s\<lparr>line_buffer := buf, dmesg := dmesg s @ [LogOverflow]\<rparr>)"
  by (rule dump_loop_turn, assumption, rule dump_body_discard)

lemma dump_loop_emit:
  "rb_put (shm t) \<noteq> get \<Longrightarrow>
   log_read_line (line_buffer s) (shm (t + 1)) (rb_put (shm t)) get = Some (buf, n) \<Longrightarrow>
   \<not> rb_alloc (shm (t + 2)) - get > rb_sz (shm (t + 2)) \<Longrightarrow>
   dump_loop rl shm t get s =
     dump_loop rl shm (t + 3) (get + of_nat n)
       (s\<lparr>line_buffer := buf, rate_limit := snd (rl (rate_limit s)),
          dmesg := dmesg s @ (if fst (rl (rate_limit s)) then [LogLine (c_string buf)] else [])\<rparr>)"
  by (rule dump_loop_turn, assumption, rule dump_body_emit)

lemma dump_body_total:
  assumes ok: "ring_ok log1" and len: "length (line_buffer s) = TRUSTY_LINE_BUFFER_SIZE"
  shows "\<exists>g' s'. dump_body rl log1 log2 put get s = Inr (g', s') \<and>
           length (line_buffer s') = TRUSTY_LINE_BUFFER_SIZE"
proof -
  let ?fl = "spec_first_line (rb_window log1 get (min (unat (put - get)) 255))"
  let ?buf = "?fl @ NUL # drop (Suc (length ?fl)) (line_buffer s)"
  have rd: "log_read_line (line_buffer s) log1 put get = Some (?buf, length ?fl)"
    by (rule log_read_line_char [OF ok len])
  have "length ?fl \<le> min (unat (put - get)) 255"
    using spec_first_line_length [of "rb_window log1 get (min (unat (put - get)) 255)"]
    by (simp add: rb_window_length)
  then have bl: "length ?buf = TRUSTY_LINE_BUFFER_SIZE"
    using len by (simp add: TRUSTY_LINE_BUFFER_SIZE_def)
  show ?thesis
  proof (cases "rb_alloc log2 - get > rb_sz log2")
    case True
    from dump_body_discard [OF rd True, of rl] bl show ?thesis by simp
  next
    case False
    from dump_body_emit [OF rd False, of rl] bl show ?thesis by simp
  qed
qed

lemma read_loop_total:
  "ring_ok log \<Longrightarrow> log_read_loop log (ucast (rb_sz log - 1)) m buf i g c \<noteq> None"
proof (induction log "ucast (rb_sz log - 1) :: size_t" m buf i g c rule: log_read_loop.induct)
  case (1 log max_to_read buf i get c)
  have at: "rb_data_at log (rb_index (ucast (rb_sz log - 1)) get) =
              Some (rb_data log ! rb_index (ucast (rb_sz log - 1)) get)"
    using 1(2) rb_index_bound [of "rb_sz log" get] by (simp add: rb_data_at_def ring_ok_def)
  show ?case
  proof (cases "i < max_to_read \<and> c \<noteq> NL")
    case True
    with 1(1) [OF True at 1(2)] show ?thesis
      by (subst log_read_loop.simps) (simp add: at)
  next
    case False
    then show ?thesis by (subst log_read_loop.simps) auto
  qed
qed

lemma read_line_total: "ring_ok log \<Longrightarrow> log_read_line buf0 log put get \<noteq> None"
  using read_loop_total [of log] by (auto simp: log_read_line_def Let_def split: option.splits)


lemma dump_loop_no_fault_aux:
  assumes run: "dump_loop rl shm t get s = Some y"
  shows "(\<forall>t. ring_ok (shm t)) \<longrightarrow> y \<noteq> Inl OutOfBounds"
proof (rule dump_loop.raw_induct
    [where P = "\<lambda>rl shm t get s y. (\<forall>t. ring_ok (shm t)) \<longrightarrow> y \<noteq> Inl OutOfBounds", OF _ run],
    goal_cases)
  case (1 dump_loop rl shm t get s y)
  show ?case
  proof
    assume ok: "\<forall>t. ring_ok (shm t)"
    then have "ring_ok (shm (t + 1))" by simp
    then obtain buf n where
      rd: "log_read_line (line_buffer s) (shm (t + 1)) (rb_put (shm t)) get = Some (buf, n)"
      using read_line_total [of "shm (t + 1)"] by fastforce
    show "y \<noteq> Inl OutOfBounds"
    proof (cases "rb_put (shm t) = get")
      case True
      with 1(2) show ?thesis by auto
    next
      case False
      show ?thesis
      proof (cases "rb_sz (shm (t + 2)) < rb_alloc (shm (t + 2)) - get")
        case True
        with False dump_body_discard [OF rd True, of rl] 1(2) have "dump_loop rl shm (t + 3)
            (rb_alloc (shm (t + 2)) - rb_sz (shm (t + 2)))
            (s\<lparr>line_buffer := buf, dmesg := dmesg s @ [LogOverflow]\<rparr>) = Some y"
          by (simp add: Let_def)
        from 1(1) [OF this] ok show ?thesis by simp
      next
        case nov: False
        with False dump_body_emit [OF rd nov, of rl] 1(2) have "dump_loop rl shm (t + 3) (get + of_nat n)
            (s\<lparr>line_buffer := buf, rate_limit := snd (rl (rate_limit s)),
               dmesg := dmesg s @ (if fst (rl (rate_limit s)) then [LogLine (c_string buf)] else [])\<rparr>) = Some y"
          by (simp add: Let_def)
        from 1(1) [OF this] ok show ?thesis by simp
      qed
    qed
  qed
qed
subsection \<open>The two ways a turn of the loop ends\<close>

text \<open>
  C1: take a turn of the loop in which \<^verbatim>\<open>put\<close> differs from the cursor and the line has
  been copied from a well-formed ring. If the value of \<^verbatim>\<open>alloc\<close> read after the copy has
  \<open>alloc - get > sz\<close> in unsigned 32-bit arithmetic, the body of the loop ends with the
  cursor set to exactly \<open>alloc - sz\<close>, whatever number of bytes was copied, and with one
  overflow report as the only thing added to the kernel log: the copied line is not
  printed, nothing of it is kept but the scratch buffer, and the rate limiter is not
  asked. The loop continues from its top with that cursor and that state; so when the
  next \<^verbatim>\<open>put\<close> it reads equals the new cursor, the drain loop returns exactly them.
\<close>

theorem overflow_discards_line:
  assumes "rb_put (shm t) \<noteq> get" and "ring_ok (shm (t + 1))"
    and "rb_alloc (shm (t + 2)) - get > rb_sz (shm (t + 2))"
  shows "\<exists>buf n. log_read_line (line_buffer s) (shm (t + 1)) (rb_put (shm t)) get = Some (buf, n) \<and>
           dump_body rl (shm (t + 1)) (shm (t + 2)) (rb_put (shm t)) get s =
             Inr (rb_alloc (shm (t + 2)) - rb_sz (shm (t + 2)),
                  s\<lparr>line_buffer := buf, dmesg := dmesg s @ [LogOverflow]\<rparr>) \<and>
           dump_loop rl shm t get s =
             dump_loop rl shm (t + 3) (rb_alloc (shm (t + 2)) - rb_sz (shm (t + 2)))
               (s\<lparr>line_buffer := buf, dmesg := dmesg s @ [LogOverflow]\<rparr>) \<and>
           (rb_put (shm (t + 3)) = rb_alloc (shm (t + 2)) - rb_sz (shm (t + 2)) \<longrightarrow>
              dump_loop rl shm t get s =
                Some (Inr (rb_alloc (shm (t + 2)) - rb_sz (shm (t + 2)),
                           s\<lparr>line_buffer := buf, dmesg := dmesg s @ [LogOverflow]\<rparr>)))"
proof -
  from read_line_total [OF assms(2)] obtain buf n where
    rd: "log_read_line (line_buffer s) (shm (t + 1)) (rb_put (shm t)) get = Some (buf, n)"
    by fastforce
  let ?g = "rb_alloc (shm (t + 2)) - rb_sz (shm (t + 2))"
  let ?s = "s\<lparr>line_buffer := buf, dmesg := dmesg s @ [LogOverflow]\<rparr>"
  have body: "dump_body rl (shm (t + 1)) (shm (t + 2)) (rb_put (shm t)) get s = Inr (?g, ?s)"
    using rd assms(3) by (rule dump_body_discard)
  have step: "dump_loop rl shm t get s = dump_loop rl shm (t + 3) ?g ?s"
    using assms(1) body by (rule dump_loop_turn)
  have stop: "dump_loop rl shm t get s = Some (Inr (?g, ?s))" if "rb_put (shm (t + 3)) = ?g"
    unfolding step using that by (rule dump_loop_stop)
  from rd body step stop show ?thesis by blast
qed

theorem overflow_discards_line_witness:
  "rb_put ((\<lambda>_. ring_jump) 1) \<noteq> 0 \<and> ring_ok ((\<lambda>_. ring_jump) (1 + 1)) \<and>
   rb_alloc ((\<lambda>_. ring_jump) (1 + 2)) - 0 > rb_sz ((\<lambda>_. ring_jump) (1 + 2)) \<and>
   rb_put ((\<lambda>_. ring_jump) (1 + 3)) = rb_alloc ((\<lambda>_. ring_jump) (1 + 2)) - rb_sz ((\<lambda>_. ring_jump) (1 + 2)) \<and>
   (\<exists>buf. dump_body rl_allow ring_jump ring_jump 20 0 s_init =
             Inr (20, s_init\<lparr>line_buffer := buf, dmesg := [LogOverflow]\<rparr>) \<and>
           dump_loop rl_allow (\<lambda>_. ring_jump) 1 0 s_init =
             Some (Inr (20, s_init\<lparr>line_buffer := buf, dmesg := [LogOverflow]\<rparr>)))"
proof -
  have a: "rb_put ((\<lambda>_. ring_jump) 1) \<noteq> 0" by (simp add: ring_jump_def)
  have b: "ring_ok ((\<lambda>_. ring_jump) (1 + 1))" by (simp add: ring_ok_def ring_jump_def)
  have c: "rb_alloc ((\<lambda>_. ring_jump) (1 + 2)) - 0 > rb_sz ((\<lambda>_. ring_jump) (1 + 2))"
    by (simp add: ring_jump_def)
  have e: "rb_put ((\<lambda>_. ring_jump) (1 + 3)) =
             rb_alloc ((\<lambda>_. ring_jump) (1 + 2)) - rb_sz ((\<lambda>_. ring_jump) (1 + 2))"
    by (simp add: ring_jump_def)
  have d: "rb_alloc ring_jump - rb_sz ring_jump = 20" "rb_put ring_jump = 20" "dmesg s_init = []"
    by (simp_all add: ring_jump_def s_init_def)
  from overflow_discards_line
    [where shm = "\<lambda>_. ring_jump" and t = 1 and get = 0 and s = s_init and rl = rl_allow, OF a b c]
  have "\<exists>buf. dump_body rl_allow ring_jump ring_jump 20 0 s_init =
             Inr (20, s_init\<lparr>line_buffer := buf, dmesg := [LogOverflow]\<rparr>) \<and>
           dump_loop rl_allow (\<lambda>_. ring_jump) 1 0 s_init =
             Some (Inr (20, s_init\<lparr>line_buffer := buf, dmesg := [LogOverflow]\<rparr>))"
    by (auto simp: d)
  with a b c e show ?thesis by blast
qed



subsection \<open>The size check\<close>

text \<open>
  C9: when the ring's size is not a power of two, \<^verbatim>\<open>trusty_dump_logs\<close> returns at once
  and normally: it logs the warning and changes nothing else. The cursor, the line
  buffer and the rate limiter are as before, no line is printed, and the result does not
  depend on the ring's data, which is never read.
\<close>

theorem bad_size_skips_drain:
  assumes "\<not> is_power_of_2 (rb_sz (shm 0))"
  shows "trusty_dump_logs rl shm s = Some (Inr (s\<lparr>dmesg := dmesg s @ [ConfigWarn]\<rparr>))"
  using assms by (simp add: trusty_dump_logs_def)

theorem bad_size_skips_drain_witness:
  "\<not> is_power_of_2 (rb_sz ((\<lambda>_. ring_bad) 0)) \<and>
   trusty_dump_logs rl_allow (\<lambda>_. ring_bad) s_init =
     Some (Inr \<lparr>s_get = 0, line_buffer = replicate 256 NUL, rate_limit = (), dmesg = [ConfigWarn]\<rparr>)"
proof -
  have np: "\<not> is_power_of_2 (rb_sz ((\<lambda>_. ring_bad) 0))"
    by (simp add: is_power_of_2_def ring_bad_def)
  from bad_size_skips_drain [OF np, of rl_allow s_init] np show ?thesis
    by (simp add: s_init_def)
qed

subsection \<open>Reads stay inside the data array\<close>

text \<open>
  C5: let the ring keep its size \<open>c\<close> and a data array of \<open>c\<close> bytes while the producer
  changes the counters and the bytes at will. Then, for every cursor, a drain never reads
  outside the array; when \<open>c\<close> is a power of two, every index \<^verbatim>\<open>get & mask\<close> is below
  \<open>c\<close>, whatever the counter \<open>get\<close> is.
\<close>

theorem reads_stay_in_bounds:
  assumes "\<forall>t. rb_sz (shm t) = c \<and> length (rb_data (shm t)) = unat c"
  shows "trusty_dump_logs rl shm s \<noteq> Some (Inl OutOfBounds) \<and>
         (is_power_of_2 c \<longrightarrow> (\<forall>get. rb_index (ucast (c - 1)) get < unat c))"
proof -
  have idx: "\<forall>get. rb_index (ucast (c - 1)) get < unat c" if "is_power_of_2 c"
    using that rb_index_bound [of c] by (simp add: is_power_of_2_def)
  have "trusty_dump_logs rl shm s \<noteq> Some (Inl OutOfBounds)"
  proof (cases "is_power_of_2 (rb_sz (shm 0))")
    case False
    then show ?thesis by (simp add: trusty_dump_logs_def)
  next
    case True
    with assms have "c \<noteq> 0" by (auto simp: is_power_of_2_def)
    with assms have ok: "\<forall>t. ring_ok (shm t)" by (simp add: ring_ok_def)
    show ?thesis
    proof
      assume a: "trusty_dump_logs rl shm s = Some (Inl OutOfBounds)"
      with True have "dump_loop rl shm 1 (s_get s) s = Some (Inl OutOfBounds)"
        by (auto simp: trusty_dump_logs_def split: option.splits sum.splits)
      from dump_loop_no_fault_aux [OF this] ok show False by simp
    qed
  qed
  with idx show ?thesis by blast
qed

theorem reads_stay_in_bounds_witness:
  "(\<forall>t. rb_sz ((\<lambda>_. ring_over) t) = 16 \<and> length (rb_data ((\<lambda>_. ring_over) t)) = unat (16 :: u32)) \<and>
   is_power_of_2 16 \<and>
   trusty_dump_logs rl_allow (\<lambda>_. ring_over) s_init \<noteq> Some (Inl OutOfBounds) \<and>
   rb_index (ucast (16 - 1 :: u32)) 0xFFFFFFFF < unat (16 :: u32)"
proof -
  have a: "\<forall>t. rb_sz ((\<lambda>_. ring_over) t) = 16 \<and> length (rb_data ((\<lambda>_. ring_over) t)) = unat (16 :: u32)"
    by (simp add: ring_over_def)
  have p: "is_power_of_2 16" by (simp add: is_power_of_2_def)
  from reads_stay_in_bounds [OF a, of rl_allow s_init] p a show ?thesis by blast
qed

subsection \<open>A drain of a ring the producer leaves alone\<close>

lemma rb_window_0 [simp]: "rb_window log g 0 = []"
  by (simp add: rb_window_def)

lemma rb_window_take: "take m (rb_window log g d) = rb_window log g (min m d)"
proof -
  have "take m [0..<d] = [0..<min m d]"
    by (cases "m \<le> d") (simp_all add: min_def)
  then show ?thesis by (simp add: rb_window_def take_map)
qed

lemma rb_window_drop: "drop n (rb_window log g d) = rb_window log (g + of_nat n) (d - n)"
proof -
  have "drop n [0..<d] = map (\<lambda>i. i + n) [0..<d - n]"
    by (cases "n \<le> d") (simp_all add: map_add_upt)
  then show ?thesis
    by (simp add: rb_window_def drop_map comp_def add.commute add.left_commute add.assoc)
qed

lemma unat_sub_of_nat:
  "n \<le> unat (x :: u32) \<Longrightarrow> unat (x - of_nat n) = unat x - n"
proof -
  assume a: "n \<le> unat x"
  have "unat x < 2 ^ 32" using unsigned_less [of x, where ?'a = nat] by simp
  with a have n: "unat (of_nat n :: u32) = n" by (simp add: unat_of_nat)
  then have "(of_nat n :: u32) \<le> x" using a by (simp add: word_le_nat_alt)
  then show ?thesis by (simp add: unat_sub n)
qed


lemma spec_lines_Nil [simp]: "spec_lines [] = []"
  by (subst spec_lines.simps) simp

lemma spec_lines_window:
  assumes "d \<noteq> 0"
  shows "spec_lines (rb_window log g d) =
           spec_first_line (rb_window log g (min d 255)) #
           spec_lines (rb_window log (g + of_nat (length (spec_first_line (rb_window log g (min d 255)))))
             (d - length (spec_first_line (rb_window log g (min d 255)))))"
proof -
  have ne: "rb_window log g d \<noteq> []" using assms by (simp add: rb_window_def)
  have m: "min 255 d = min d 255" by (rule min.commute)
  show ?thesis
    by (subst spec_lines.simps)
      (simp add: ne Let_def TRUSTY_LINE_BUFFER_SIZE_def rb_window_take rb_window_drop m)
qed

lemma spec_rate_limited_Cons:
  "spec_rate_limited rl r (x # xs) =
     ((if fst (rl r) then [x] else []) @ fst (spec_rate_limited rl (snd (rl r)) xs),
      snd (spec_rate_limited rl (snd (rl r)) xs))"
  by (simp add: split_beta)

lemma dump_loop_static:
  assumes ok: "ring_ok log"
  shows "length (line_buffer s) = TRUSTY_LINE_BUFFER_SIZE \<Longrightarrow>
         unat (rb_put log - get) = d \<Longrightarrow>
         d \<le> unat (rb_alloc log - get) \<Longrightarrow>
         unat (rb_alloc log - get) \<le> unat (rb_sz log) \<Longrightarrow>
         \<exists>buf. length buf = TRUSTY_LINE_BUFFER_SIZE \<and>
           dump_loop rl (\<lambda>_. log) t get s =
             Some (Inr (rb_put log,
               s\<lparr>line_buffer := buf,
                 rate_limit := snd (spec_rate_limited rl (rate_limit s)
                                 (map c_string (spec_lines (rb_window log get d)))),
                 dmesg := dmesg s @ map LogLine (fst (spec_rate_limited rl (rate_limit s)
                                 (map c_string (spec_lines (rb_window log get d)))))\<rparr>))"
proof (induction d arbitrary: get s t rule: less_induct)
  case (less d)
  show ?case
  proof (cases "d = 0")
    case True
    with less.prems(2) have "rb_put log - get = 0" by (simp add: unat_eq_zero)
    then have "rb_put log = get" by simp
    then have "dump_loop rl (\<lambda>_. log) t get s = Some (Inr (rb_put log, s))"
      by (simp add: dump_loop_stop)
    with True less.prems(1) show ?thesis
      by (intro exI [of _ "line_buffer s"]) simp
  next
    case False
    let ?fl = "spec_first_line (rb_window log get (min d 255))"
    let ?n = "length ?fl"
    let ?buf = "?fl @ NUL # drop (Suc ?n) (line_buffer s)"
    let ?s1 = "s\<lparr>line_buffer := ?buf, rate_limit := snd (rl (rate_limit s)),
                 dmesg := dmesg s @ (if fst (rl (rate_limit s)) then [LogLine (c_string ?buf)] else [])\<rparr>"
    let ?g = "get + of_nat ?n"
    from False less.prems(2) have ne: "rb_put ((\<lambda>_. log) t) \<noteq> get" by auto
    have rd: "log_read_line (line_buffer s) ((\<lambda>_. log) (t + 1)) (rb_put ((\<lambda>_. log) t)) get = Some (?buf, ?n)"
      using log_read_line_char [OF ok less.prems(1), of "rb_put log" get] less.prems(2) by simp
    have w: "rb_window log get (min d 255) \<noteq> []" using False by (simp add: rb_window_def)
    have "?fl \<noteq> []" using w by (rule spec_first_line_nonempty)
    then have n1: "1 \<le> ?n" by (cases ?fl) simp_all
    have nle: "?n \<le> min d 255"
      using spec_first_line_length [of "rb_window log get (min d 255)"] by (simp add: rb_window_length)
    then have nd: "?n \<le> d" by simp
    have nov: "\<not> rb_alloc ((\<lambda>_. log) (t + 2)) - get > rb_sz ((\<lambda>_. log) (t + 2))"
      using less.prems(4) by (simp add: word_less_nat_alt)
    have step: "dump_loop rl (\<lambda>_. log) t get s = dump_loop rl (\<lambda>_. log) (t + 3) ?g ?s1"
      by (rule dump_loop_emit [OF ne rd nov])
    have p: "rb_put log - ?g = (rb_put log - get) - of_nat ?n" by simp
    have a: "rb_alloc log - ?g = (rb_alloc log - get) - of_nat ?n" by simp
    have d': "unat (rb_put log - ?g) = d - ?n"
      unfolding p using nd less.prems(2) by (simp add: unat_sub_of_nat)
    have a': "unat (rb_alloc log - ?g) = unat (rb_alloc log - get) - ?n"
      unfolding a using nd less.prems(3) by (simp add: unat_sub_of_nat)
    have lt: "d - ?n < d" using n1 False by simp
    have len1: "length (line_buffer ?s1) = TRUSTY_LINE_BUFFER_SIZE"
      using nle less.prems(1) by (simp add: TRUSTY_LINE_BUFFER_SIZE_def)
    have b1: "d - ?n \<le> unat (rb_alloc log - ?g)" using less.prems(3) by (simp add: a')
    have b2: "unat (rb_alloc log - ?g) \<le> unat (rb_sz log)" using less.prems(4) by (simp add: a')
    from less.IH [OF lt len1 d' b1 b2, of "t + 3"]
    obtain buf where len: "length buf = TRUSTY_LINE_BUFFER_SIZE"
      and run: "dump_loop rl (\<lambda>_. log) (t + 3) ?g ?s1 =
         Some (Inr (rb_put log,
           ?s1\<lparr>line_buffer := buf,
             rate_limit := snd (spec_rate_limited rl (rate_limit ?s1)
                             (map c_string (spec_lines (rb_window log ?g (d - ?n))))),
             dmesg := dmesg ?s1 @ map LogLine (fst (spec_rate_limited rl (rate_limit ?s1)
                             (map c_string (spec_lines (rb_window log ?g (d - ?n))))))\<rparr>))"
      by blast
    have cs: "c_string ?buf = c_string ?fl" by (rule c_string_nul)
    let ?L' = "map c_string (spec_lines (rb_window log ?g (d - ?n)))"
    let ?L = "map c_string (spec_lines (rb_window log get d))"
    have L: "?L = c_string ?fl # ?L'"
      by (simp only: spec_lines_window [OF False] list.map)
    have st: "?s1\<lparr>line_buffer := buf,
                 rate_limit := snd (spec_rate_limited rl (rate_limit ?s1) ?L'),
                 dmesg := dmesg ?s1 @ map LogLine (fst (spec_rate_limited rl (rate_limit ?s1) ?L'))\<rparr> =
              s\<lparr>line_buffer := buf,
                 rate_limit := snd (spec_rate_limited rl (rate_limit s) ?L),
                 dmesg := dmesg s @ map LogLine (fst (spec_rate_limited rl (rate_limit s) ?L))\<rparr>"
      unfolding L spec_rate_limited_Cons cs by simp
    have "dump_loop rl (\<lambda>_. log) t get s =
            Some (Inr (rb_put log,
              s\<lparr>line_buffer := buf,
                 rate_limit := snd (spec_rate_limited rl (rate_limit s) ?L),
                 dmesg := dmesg s @ map LogLine (fst (spec_rate_limited rl (rate_limit s) ?L))\<rparr>))"
      unfolding step run st ..
    with len show ?thesis by blast
  qed
qed

lemma power_of_2_ring_ok:
  "is_power_of_2 (rb_sz log) \<Longrightarrow> length (rb_data log) = unat (rb_sz log) \<Longrightarrow> ring_ok log"
  by (simp add: is_power_of_2_def ring_ok_def)

lemma trusty_dump_logs_static:
  assumes p2: "is_power_of_2 (rb_sz log)" and dl: "length (rb_data log) = unat (rb_sz log)"
    and len: "length (line_buffer s) = TRUSTY_LINE_BUFFER_SIZE"
    and d: "unat (rb_put log - s_get s) \<le> unat (rb_alloc log - s_get s)"
    and a: "unat (rb_alloc log - s_get s) \<le> unat (rb_sz log)"
  shows "\<exists>buf. length buf = TRUSTY_LINE_BUFFER_SIZE \<and>
           trusty_dump_logs rl (\<lambda>_. log) s =
             Some (Inr (s\<lparr>s_get := rb_put log, line_buffer := buf,
                 rate_limit := snd (spec_rate_limited rl (rate_limit s)
                    (map c_string (spec_lines (rb_window log (s_get s) (unat (rb_put log - s_get s)))))),
                 dmesg := dmesg s @ map LogLine (fst (spec_rate_limited rl (rate_limit s)
                    (map c_string (spec_lines (rb_window log (s_get s) (unat (rb_put log - s_get s)))))))\<rparr>))"
proof -
  have ok: "ring_ok log" using p2 dl by (rule power_of_2_ring_ok)
  from dump_loop_static [OF ok len refl d a, of rl 1]
  obtain buf where "length buf = TRUSTY_LINE_BUFFER_SIZE" and
    "dump_loop rl (\<lambda>_. log) 1 (s_get s) s =
       Some (Inr (rb_put log, s\<lparr>line_buffer := buf,
                 rate_limit := snd (spec_rate_limited rl (rate_limit s)
                    (map c_string (spec_lines (rb_window log (s_get s) (unat (rb_put log - s_get s)))))),
                 dmesg := dmesg s @ map LogLine (fst (spec_rate_limited rl (rate_limit s)
                    (map c_string (spec_lines (rb_window log (s_get s) (unat (rb_put log - s_get s)))))))\<rparr>))"
    by blast
  with p2 show ?thesis by (intro exI [of _ buf]) (simp add: trusty_dump_logs_def)
qed

lemma spec_lines_single:
  assumes "w \<noteq> []" and "NL \<notin> set (butlast w)" and "length w \<le> 255"
  shows "spec_lines w = [w]"
proof -
  have t: "take (TRUSTY_LINE_BUFFER_SIZE - 1) w = w"
    using assms(3) by (simp add: TRUSTY_LINE_BUFFER_SIZE_def)
  have "spec_first_line w = w" using assms(1,2)
  proof (induction w)
    case Nil
    then show ?case by simp
  next
    case (Cons c cs)
    then show ?case by (cases "cs = []") auto
  qed
  then show ?thesis using assms(1) by (subst spec_lines.simps) (simp add: t [simplified] Let_def)
qed


lemma spec_rate_limited_single:
  "spec_rate_limited rl r [x] = ((if fst (rl r) then [x] else []), snd (rl r))"
  by (simp add: split_beta)

subsection \<open>The two scenarios of the specification\<close>

text \<open>
  C7, as amended: on a ring of capacity 16 whose first three bytes are \<^verbatim>\<open>"hi\n"\<close>, with
  \<^verbatim>\<open>put = alloc = 3\<close> and the cursor at 0, one drain hands exactly one line to the rate
  limiter and leaves the cursor at 3. The line is the three bytes \<^verbatim>\<open>"hi\n"\<close>: its newline is
  part of what is printed. It is printed when the limiter allows it.
\<close>

theorem drain_hi_line:
  assumes "length rest = 13" and "length (line_buffer s) = TRUSTY_LINE_BUFFER_SIZE"
    and "s_get s = 0"
  shows "\<exists>buf. trusty_dump_logs rl
            (\<lambda>_. \<lparr>rb_alloc = 3, rb_put = 3, rb_sz = 16, rb_data = ''hi'' @ [NL] @ rest\<rparr>) s =
           Some (Inr (s\<lparr>s_get := 3, line_buffer := buf, rate_limit := snd (rl (rate_limit s)),
             dmesg := dmesg s @ (if fst (rl (rate_limit s)) then [LogLine (''hi'' @ [NL])] else [])\<rparr>))"
proof -
  let ?log = "\<lparr>rb_alloc = 3, rb_put = 3, rb_sz = 16, rb_data = ''hi'' @ [NL] @ rest\<rparr>"
  have p2: "is_power_of_2 (rb_sz ?log)" by (simp add: is_power_of_2_def)
  have dl: "length (rb_data ?log) = unat (rb_sz ?log)" using assms(1) by simp
  have d: "unat (rb_put ?log - s_get s) \<le> unat (rb_alloc ?log - s_get s)" by simp
  have a: "unat (rb_alloc ?log - s_get s) \<le> unat (rb_sz ?log)" by (simp add: assms(3))
  have w: "rb_window ?log (s_get s) (unat (rb_put ?log - s_get s)) = ''hi'' @ [NL]"
    by (simp add: rb_window_def assms(3) upt_conv_Cons)
  have l: "spec_lines (''hi'' @ [NL]) = [''hi'' @ [NL]]"
    by (rule spec_lines_single) simp_all
  have c: "c_string (''hi'' @ [NL]) = ''hi'' @ [NL]" by (simp add: c_string_def)
  from trusty_dump_logs_static [OF p2 dl assms(2) d a, of rl]
  obtain buf where "trusty_dump_logs rl (\<lambda>_. ?log) s =
     Some (Inr (s\<lparr>s_get := rb_put ?log, line_buffer := buf,
                 rate_limit := snd (spec_rate_limited rl (rate_limit s) (map c_string (spec_lines (''hi'' @ [NL])))),
                 dmesg := dmesg s @ map LogLine (fst (spec_rate_limited rl (rate_limit s)
                    (map c_string (spec_lines (''hi'' @ [NL])))))\<rparr>))"
    unfolding w by blast
  then have "trusty_dump_logs rl (\<lambda>_. ?log) s =
     Some (Inr (s\<lparr>s_get := 3, line_buffer := buf, rate_limit := snd (rl (rate_limit s)),
             dmesg := dmesg s @ (if fst (rl (rate_limit s)) then [LogLine (''hi'' @ [NL])] else [])\<rparr>))"
    unfolding l list.map c spec_rate_limited_single by simp
  then show ?thesis ..
qed

theorem drain_hi_line_witness:
  "length (replicate 13 NUL) = 13 \<and> length (line_buffer s_init) = TRUSTY_LINE_BUFFER_SIZE \<and>
   s_get s_init = 0 \<and>
   (\<exists>buf. trusty_dump_logs rl_allow (\<lambda>_. ring_hi) s_init =
      Some (Inr (s_init\<lparr>s_get := 3, line_buffer := buf, dmesg := [LogLine (''hi'' @ [NL])]\<rparr>)))"
proof -
  have a: "length (replicate 13 NUL) = 13" by simp
  have b: "length (line_buffer s_init) = TRUSTY_LINE_BUFFER_SIZE"
    by (simp add: s_init_def TRUSTY_LINE_BUFFER_SIZE_def)
  have c: "s_get s_init = 0" by (simp add: s_init_def)
  have i: "rate_limit s_init = ()" "dmesg s_init = []" by (simp_all add: s_init_def)
  from drain_hi_line [OF a b c, of rl_allow]
  obtain buf where "trusty_dump_logs rl_allow (\<lambda>_. ring_hi) s_init =
      Some (Inr (s_init\<lparr>s_get := 3, line_buffer := buf, rate_limit := (), dmesg := [LogLine (''hi'' @ [NL])]\<rparr>))"
    by (auto simp: ring_hi_def rl_allow_def i)
  then have "trusty_dump_logs rl_allow (\<lambda>_. ring_hi) s_init =
      Some (Inr (s_init\<lparr>s_get := 3, line_buffer := buf, dmesg := [LogLine (''hi'' @ [NL])]\<rparr>))"
    by (simp add: s_init_def)
  then have "\<exists>buf. trusty_dump_logs rl_allow (\<lambda>_. ring_hi) s_init =
      Some (Inr (s_init\<lparr>s_get := 3, line_buffer := buf, dmesg := [LogLine (''hi'' @ [NL])]\<rparr>))" ..
  with a b c show ?thesis by blast
qed


text \<open>
  C7, as stated, fails: the one line the drain prints in that scenario is not \<^verbatim>\<open>"hi"\<close> but
  \<^verbatim>\<open>"hi\n"\<close>.
\<close>

theorem drain_hi_counterexample:
  "\<exists>s'. trusty_dump_logs rl_allow (\<lambda>_. ring_hi) s_init = Some (Inr s') \<and> s_get s' = 3 \<and>
      dmesg s' = [LogLine (''hi'' @ [NL])] \<and> dmesg s' \<noteq> [LogLine ''hi'']"
proof -
  have p2: "is_power_of_2 (rb_sz ring_hi)" by (simp add: is_power_of_2_def ring_hi_def)
  have dl: "length (rb_data ring_hi) = unat (rb_sz ring_hi)" by (simp add: ring_hi_def)
  have len: "length (line_buffer s_init) = TRUSTY_LINE_BUFFER_SIZE"
    by (simp add: s_init_def TRUSTY_LINE_BUFFER_SIZE_def)
  have d: "unat (rb_put ring_hi - s_get s_init) \<le> unat (rb_alloc ring_hi - s_get s_init)"
    by (simp add: ring_hi_def)
  have a: "unat (rb_alloc ring_hi - s_get s_init) \<le> unat (rb_sz ring_hi)"
    by (simp add: ring_hi_def s_init_def)
  have w: "rb_window ring_hi (s_get s_init) (unat (rb_put ring_hi - s_get s_init)) = ''hi'' @ [NL]"
    by (simp add: rb_window_def ring_hi_def s_init_def upt_conv_Cons)
  have l: "spec_lines (''hi'' @ [NL]) = [''hi'' @ [NL]]"
    by (rule spec_lines_single) simp_all
  have c: "c_string (''hi'' @ [NL]) = ''hi'' @ [NL]" by (simp add: c_string_def)
  from trusty_dump_logs_static [OF p2 dl len d a, of rl_allow]
  obtain s' where "trusty_dump_logs rl_allow (\<lambda>_. ring_hi) s_init = Some (Inr s')"
    and "s_get s' = rb_put ring_hi"
    and "dmesg s' = dmesg s_init @ map LogLine (fst (spec_rate_limited rl_allow (rate_limit s_init)
                    (map c_string (spec_lines (''hi'' @ [NL])))))"
    unfolding w by fastforce
  then show ?thesis
    unfolding l list.map c spec_rate_limited_single
    by (intro exI [of _ s']) (simp add: ring_hi_def rl_allow_def s_init_def)
qed

lemma drain_nul_line:
  "\<exists>s'. trusty_dump_logs rl_allow (\<lambda>_. ring_nul) s_init = Some (Inr s') \<and>
      s_get s' = 4 \<and> dmesg s' = [LogLine ''a'']"
proof -
  let ?w = "[CHR ''a'', NUL, CHR ''b'', NL]"
  have p2: "is_power_of_2 (rb_sz ring_nul)" by (simp add: is_power_of_2_def ring_nul_def)
  have dl: "length (rb_data ring_nul) = unat (rb_sz ring_nul)" by (simp add: ring_nul_def)
  have len: "length (line_buffer s_init) = TRUSTY_LINE_BUFFER_SIZE"
    by (simp add: s_init_def TRUSTY_LINE_BUFFER_SIZE_def)
  have d: "unat (rb_put ring_nul - s_get s_init) \<le> unat (rb_alloc ring_nul - s_get s_init)"
    by (simp add: ring_nul_def)
  have a: "unat (rb_alloc ring_nul - s_get s_init) \<le> unat (rb_sz ring_nul)"
    by (simp add: ring_nul_def s_init_def)
  have w': "rb_window ring_nul (s_get s_init) (unat (rb_put ring_nul - s_get s_init)) = ?w"
    by (simp add: rb_window_def ring_nul_def s_init_def upt_conv_Cons)
  have l: "spec_lines ?w = [?w]" by (rule spec_lines_single) simp_all
  have c: "c_string ?w = ''a''" by (simp add: c_string_def)
  from trusty_dump_logs_static [OF p2 dl len d a, of rl_allow]
  obtain s' where "trusty_dump_logs rl_allow (\<lambda>_. ring_nul) s_init = Some (Inr s')"
    and "s_get s' = rb_put ring_nul"
    and "dmesg s' = dmesg s_init @ map LogLine (fst (spec_rate_limited rl_allow (rate_limit s_init)
                    (map c_string (spec_lines ?w))))"
    unfolding w' by fastforce
  then show ?thesis
    unfolding l list.map c spec_rate_limited_single
    by (intro exI [of _ s']) (simp add: ring_nul_def rl_allow_def s_init_def)
qed

text \<open>
  C10, as stated, fails: a line that ended at a newline need not contain it when printed.
  With the four bytes \<^verbatim>\<open>a\<close>, NUL, \<^verbatim>\<open>b\<close>, newline committed, the copy stops at the newline
  and stores it, with a count of 4; but \<^verbatim>\<open>"%s"\<close> stops at the NUL, and the line the drain
  prints is \<^verbatim>\<open>"a"\<close>.
\<close>

theorem nul_in_line_counterexample:
  "ring_ok ring_nul \<and> length (line_buffer s_init) = TRUSTY_LINE_BUFFER_SIZE \<and>
   (\<exists>buf. log_read_line (line_buffer s_init) ring_nul 4 0 = Some (buf, 4) \<and>
      buf ! 3 = NL \<and> buf ! 4 = NUL \<and> c_string buf = ''a'' \<and> NL \<notin> set (c_string buf)) \<and>
   (\<exists>s'. trusty_dump_logs rl_allow (\<lambda>_. ring_nul) s_init = Some (Inr s') \<and>
      s_get s' = 4 \<and> dmesg s' = [LogLine ''a''])"
proof -
  let ?w = "[CHR ''a'', NUL, CHR ''b'', NL]"
  have ok: "ring_ok ring_nul" by (simp add: ring_ok_def ring_nul_def)
  have len: "length (line_buffer s_init) = TRUSTY_LINE_BUFFER_SIZE"
    by (simp add: s_init_def TRUSTY_LINE_BUFFER_SIZE_def)
  have w: "rb_window ring_nul 0 (min (unat (4 - 0 :: u32)) 255) = ?w"
    by (simp add: rb_window_def ring_nul_def upt_conv_Cons)
  have rd: "log_read_line (line_buffer s_init) ring_nul 4 0 = Some (?w @ NUL # replicate 251 NUL, 4)"
    unfolding log_read_line_char [OF ok len, of 4 0] w by (simp add: s_init_def)
  have x: "\<exists>buf. log_read_line (line_buffer s_init) ring_nul 4 0 = Some (buf, 4) \<and>
      buf ! 3 = NL \<and> buf ! 4 = NUL \<and> c_string buf = ''a'' \<and> NL \<notin> set (c_string buf)"
    unfolding rd by (simp add: c_string_def)
  from ok len x drain_nul_line show ?thesis by blast
qed

lemma dump_loop_static_overflow:
  assumes ok: "ring_ok log" and len: "length (line_buffer s) = TRUSTY_LINE_BUFFER_SIZE"
    and ne: "rb_put log \<noteq> get"
    and ov: "unat (rb_sz log) < unat (rb_alloc log - get)"
    and e: "unat (rb_alloc log - rb_put log) \<le> unat (rb_sz log)"
  shows "\<exists>buf1 buf. length buf = TRUSTY_LINE_BUFFER_SIZE \<and>
           dump_loop rl (\<lambda>_. log) t get s =
             dump_loop rl (\<lambda>_. log) (t + 3) (rb_alloc log - rb_sz log)
               (s\<lparr>line_buffer := buf1, dmesg := dmesg s @ [LogOverflow]\<rparr>) \<and>
           dump_loop rl (\<lambda>_. log) t get s =
             Some (Inr (rb_put log,
               s\<lparr>line_buffer := buf,
                 rate_limit := snd (spec_rate_limited rl (rate_limit s)
                    (map c_string (spec_lines (rb_window log (rb_alloc log - rb_sz log)
                       (unat (rb_sz log) - unat (rb_alloc log - rb_put log)))))),
                 dmesg := dmesg s @ LogOverflow # map LogLine (fst (spec_rate_limited rl (rate_limit s)
                    (map c_string (spec_lines (rb_window log (rb_alloc log - rb_sz log)
                       (unat (rb_sz log) - unat (rb_alloc log - rb_put log)))))))\<rparr>))"
proof -
  let ?fl = "spec_first_line (rb_window log get (min (unat (rb_put log - get)) 255))"
  let ?buf1 = "?fl @ NUL # drop (Suc (length ?fl)) (line_buffer s)"
  let ?s1 = "s\<lparr>line_buffer := ?buf1, dmesg := dmesg s @ [LogOverflow]\<rparr>"
  let ?g = "rb_alloc log - rb_sz log"
  let ?d = "unat (rb_sz log) - unat (rb_alloc log - rb_put log)"
  have rd: "log_read_line (line_buffer s) ((\<lambda>_. log) (t + 1)) (rb_put ((\<lambda>_. log) t)) get =
              Some (?buf1, length ?fl)"
    using log_read_line_char [OF ok len, of "rb_put log" get] by simp
  have ne': "rb_put ((\<lambda>_. log) t) \<noteq> get" using ne by simp
  have ov': "rb_alloc ((\<lambda>_. log) (t + 2)) - get > rb_sz ((\<lambda>_. log) (t + 2))"
    using ov by (simp add: word_less_nat_alt)
  have step: "dump_loop rl (\<lambda>_. log) t get s = dump_loop rl (\<lambda>_. log) (t + 3) ?g ?s1"
    using dump_loop_discard [OF ne' rd ov', of rl] by simp
  have "length ?fl \<le> min (unat (rb_put log - get)) 255"
    using spec_first_line_length [of "rb_window log get (min (unat (rb_put log - get)) 255)"]
    by (simp add: rb_window_length)
  then have len1: "length (line_buffer ?s1) = TRUSTY_LINE_BUFFER_SIZE"
    using len by (simp add: TRUSTY_LINE_BUFFER_SIZE_def)
  have p: "rb_put log - ?g = rb_sz log - (rb_alloc log - rb_put log)" by simp
  have d: "unat (rb_put log - ?g) = ?d"
    unfolding p using e by (simp add: unat_sub word_le_nat_alt)
  have a: "unat (rb_alloc log - ?g) = unat (rb_sz log)" by simp
  have b1: "?d \<le> unat (rb_alloc log - ?g)" unfolding a by simp
  have b2: "unat (rb_alloc log - ?g) \<le> unat (rb_sz log)" unfolding a by simp
  from dump_loop_static [OF ok len1 d b1 b2, of rl "t + 3"]
  obtain buf where bl: "length buf = TRUSTY_LINE_BUFFER_SIZE"
    and run: "dump_loop rl (\<lambda>_. log) (t + 3) ?g ?s1 =
       Some (Inr (rb_put log,
               ?s1\<lparr>line_buffer := buf,
                 rate_limit := snd (spec_rate_limited rl (rate_limit ?s1)
                    (map c_string (spec_lines (rb_window log ?g ?d)))),
                 dmesg := dmesg ?s1 @ map LogLine (fst (spec_rate_limited rl (rate_limit ?s1)
                    (map c_string (spec_lines (rb_window log ?g ?d)))))\<rparr>))"
    by blast
  have "dump_loop rl (\<lambda>_. log) t get s =
       Some (Inr (rb_put log,
               s\<lparr>line_buffer := buf,
                 rate_limit := snd (spec_rate_limited rl (rate_limit s)
                    (map c_string (spec_lines (rb_window log ?g ?d)))),
                 dmesg := dmesg s @ LogOverflow # map LogLine (fst (spec_rate_limited rl (rate_limit s)
                    (map c_string (spec_lines (rb_window log ?g ?d)))))\<rparr>))"
    unfolding step run by simp
  with bl step show ?thesis by blast
qed


text \<open>
  C6, as amended: on a ring of capacity 16 holding no newline, with \<^verbatim>\<open>put = alloc = 20\<close>
  and the cursor at 0, the first turn of the drain finds \<open>20 > 16\<close>, discards the line it
  copied, reports the overflow and moves the cursor to 4. The same drain then goes on:
  it reads the 16 bytes at the counters 4 to 19 as one line, hands it to the rate limiter,
  and returns with the cursor at 20. The kernel log gets exactly one overflow report.
\<close>

theorem drain_overflow_once:
  assumes "length dat = 16" and "NL \<notin> set dat"
    and "length (line_buffer s) = TRUSTY_LINE_BUFFER_SIZE" and "s_get s = 0"
  shows "\<exists>buf1 buf.
           dump_loop rl (\<lambda>_. \<lparr>rb_alloc = 20, rb_put = 20, rb_sz = 16, rb_data = dat\<rparr>) 1 0 s =
             dump_loop rl (\<lambda>_. \<lparr>rb_alloc = 20, rb_put = 20, rb_sz = 16, rb_data = dat\<rparr>) 4 4
               (s\<lparr>line_buffer := buf1, dmesg := dmesg s @ [LogOverflow]\<rparr>) \<and>
           trusty_dump_logs rl (\<lambda>_. \<lparr>rb_alloc = 20, rb_put = 20, rb_sz = 16, rb_data = dat\<rparr>) s =
             Some (Inr (s\<lparr>s_get := 20, line_buffer := buf, rate_limit := snd (rl (rate_limit s)),
               dmesg := dmesg s @ LogOverflow #
                 (if fst (rl (rate_limit s))
                  then [LogLine (c_string (rb_window \<lparr>rb_alloc = 20, rb_put = 20, rb_sz = 16, rb_data = dat\<rparr> 4 16))]
                  else [])\<rparr>))"
proof -
  let ?log = "\<lparr>rb_alloc = 20, rb_put = 20, rb_sz = 16, rb_data = dat\<rparr>"
  let ?w = "rb_window ?log 4 16"
  have ok: "ring_ok ?log" using assms(1) by (simp add: ring_ok_def)
  have p2: "is_power_of_2 (rb_sz ?log)" by (simp add: is_power_of_2_def)
  have ne: "rb_put ?log \<noteq> 0" by simp
  have ov: "unat (rb_sz ?log) < unat (rb_alloc ?log - 0)" by simp
  have e: "unat (rb_alloc ?log - rb_put ?log) \<le> unat (rb_sz ?log)" by simp
  have "set ?w \<subseteq> set dat" using rb_window_set [OF ok, of 4 16] by simp
  with assms(2) have "NL \<notin> set (butlast ?w)" by (auto dest: in_set_butlastD)
  moreover have "?w \<noteq> []" by (simp add: rb_window_def)
  moreover have "length ?w \<le> 255" by (simp add: rb_window_length)
  ultimately have l: "spec_lines ?w = [?w]" by (intro spec_lines_single)
  from dump_loop_static_overflow [OF ok assms(3) ne ov e, of rl 1]
  obtain buf1 buf where
    a0: "dump_loop rl (\<lambda>_. ?log) 1 0 s =
          dump_loop rl (\<lambda>_. ?log) (1 + 3) (rb_alloc ?log - rb_sz ?log)
            (s\<lparr>line_buffer := buf1, dmesg := dmesg s @ [LogOverflow]\<rparr>)"
    and b0: "dump_loop rl (\<lambda>_. ?log) 1 0 s =
          Some (Inr (rb_put ?log, s\<lparr>line_buffer := buf,
             rate_limit := snd (spec_rate_limited rl (rate_limit s)
                    (map c_string (spec_lines (rb_window ?log (rb_alloc ?log - rb_sz ?log)
                       (unat (rb_sz ?log) - unat (rb_alloc ?log - rb_put ?log)))))),
             dmesg := dmesg s @ LogOverflow # map LogLine (fst (spec_rate_limited rl (rate_limit s)
                    (map c_string (spec_lines (rb_window ?log (rb_alloc ?log - rb_sz ?log)
                       (unat (rb_sz ?log) - unat (rb_alloc ?log - rb_put ?log)))))))\<rparr>))"
    by blast
  have a: "dump_loop rl (\<lambda>_. ?log) 1 0 s =
          dump_loop rl (\<lambda>_. ?log) 4 4 (s\<lparr>line_buffer := buf1, dmesg := dmesg s @ [LogOverflow]\<rparr>)"
    using a0 by simp
  have b: "dump_loop rl (\<lambda>_. ?log) 1 0 s =
          Some (Inr (20, s\<lparr>line_buffer := buf, rate_limit := snd (rl (rate_limit s)),
             dmesg := dmesg s @ LogOverflow #
                 (if fst (rl (rate_limit s)) then [LogLine (c_string ?w)] else [])\<rparr>))"
    using b0 by (simp add: l spec_rate_limited_single del: spec_rate_limited.simps)
  have "trusty_dump_logs rl (\<lambda>_. ?log) s =
          Some (Inr (s\<lparr>s_get := 20, line_buffer := buf, rate_limit := snd (rl (rate_limit s)),
               dmesg := dmesg s @ LogOverflow #
                 (if fst (rl (rate_limit s)) then [LogLine (c_string ?w)] else [])\<rparr>))"
    using p2 b by (simp add: trusty_dump_logs_def assms(4))
  with a show ?thesis by blast
qed

lemma ring_over_window: "rb_window ring_over 4 16 = ''efghijklmnopqrst''"
  by (simp add: rb_window_def ring_over_def upt_conv_Cons)

theorem drain_overflow_once_witness:
  "length ''qrstefghijklmnop'' = 16 \<and> NL \<notin> set ''qrstefghijklmnop'' \<and>
   length (line_buffer s_init) = TRUSTY_LINE_BUFFER_SIZE \<and> s_get s_init = 0 \<and>
   (\<exists>buf1 buf.
      dump_loop rl_allow (\<lambda>_. ring_over) 1 0 s_init =
        dump_loop rl_allow (\<lambda>_. ring_over) 4 4 (s_init\<lparr>line_buffer := buf1, dmesg := [LogOverflow]\<rparr>) \<and>
      trusty_dump_logs rl_allow (\<lambda>_. ring_over) s_init =
        Some (Inr (s_init\<lparr>s_get := 20, line_buffer := buf,
           dmesg := [LogOverflow, LogLine ''efghijklmnopqrst'']\<rparr>)))"
proof -
  have a: "length ''qrstefghijklmnop'' = 16" by simp
  have b: "NL \<notin> set ''qrstefghijklmnop''" by simp
  have c: "length (line_buffer s_init) = TRUSTY_LINE_BUFFER_SIZE"
    by (simp add: s_init_def TRUSTY_LINE_BUFFER_SIZE_def)
  have d: "s_get s_init = 0" by (simp add: s_init_def)
  have i: "rate_limit s_init = ()" "dmesg s_init = []" by (simp_all add: s_init_def)
  have cs: "c_string ''efghijklmnopqrst'' = ''efghijklmnopqrst''" by (simp add: c_string_def)
  from drain_overflow_once [OF a b c d, of rl_allow, folded ring_over_def, unfolded ring_over_window cs]
  obtain buf1 buf where
    "dump_loop rl_allow (\<lambda>_. ring_over) 1 0 s_init =
        dump_loop rl_allow (\<lambda>_. ring_over) 4 4 (s_init\<lparr>line_buffer := buf1, dmesg := [LogOverflow]\<rparr>)"
    and "trusty_dump_logs rl_allow (\<lambda>_. ring_over) s_init =
        Some (Inr (s_init\<lparr>s_get := 20, line_buffer := buf, rate_limit := (),
           dmesg := [LogOverflow, LogLine ''efghijklmnopqrst'']\<rparr>))"
    by (auto simp: rl_allow_def i)
  then have "\<exists>buf1 buf.
      dump_loop rl_allow (\<lambda>_. ring_over) 1 0 s_init =
        dump_loop rl_allow (\<lambda>_. ring_over) 4 4 (s_init\<lparr>line_buffer := buf1, dmesg := [LogOverflow]\<rparr>) \<and>
      trusty_dump_logs rl_allow (\<lambda>_. ring_over) s_init =
        Some (Inr (s_init\<lparr>s_get := 20, line_buffer := buf,
           dmesg := [LogOverflow, LogLine ''efghijklmnopqrst'']\<rparr>))"
    by (intro exI [of _ buf1] exI [of _ buf]) (simp add: s_init_def)
  with a b c d show ?thesis by blast
qed

text \<open>
  C6, as stated, fails: the drain does not leave the cursor at 4. It ends at 20, with a
  16-byte line printed after the single overflow report.
\<close>

theorem drain_overflow_counterexample:
  "\<exists>s'. trusty_dump_logs rl_allow (\<lambda>_. ring_over) s_init = Some (Inr s') \<and>
      s_get s' = 20 \<and> s_get s' \<noteq> 4 \<and>
      dmesg s' = [LogOverflow, LogLine ''efghijklmnopqrst'']"
proof -
  have ok: "ring_ok ring_over" by (simp add: ring_ok_def ring_over_def)
  have p2: "is_power_of_2 (rb_sz ring_over)" by (simp add: is_power_of_2_def ring_over_def)
  have len: "length (line_buffer s_init) = TRUSTY_LINE_BUFFER_SIZE"
    by (simp add: s_init_def TRUSTY_LINE_BUFFER_SIZE_def)
  have ne: "rb_put ring_over \<noteq> 0" by (simp add: ring_over_def)
  have ov: "unat (rb_sz ring_over) < unat (rb_alloc ring_over - 0)" by (simp add: ring_over_def)
  have e: "unat (rb_alloc ring_over - rb_put ring_over) \<le> unat (rb_sz ring_over)"
    by (simp add: ring_over_def)
  have g: "rb_alloc ring_over = 20" "rb_sz ring_over = 16" "rb_put ring_over = 20"
    by (simp_all add: ring_over_def)
  have l: "spec_lines ''efghijklmnopqrst'' = [''efghijklmnopqrst'']"
    by (rule spec_lines_single) simp_all
  have cs: "c_string ''efghijklmnopqrst'' = ''efghijklmnopqrst''" by (simp add: c_string_def)
  from dump_loop_static_overflow [OF ok len ne ov e, of rl_allow 1]
  obtain buf where b0: "dump_loop rl_allow (\<lambda>_. ring_over) 1 0 s_init =
          Some (Inr (rb_put ring_over, s_init\<lparr>line_buffer := buf,
             rate_limit := snd (spec_rate_limited rl_allow (rate_limit s_init)
                    (map c_string (spec_lines (rb_window ring_over (rb_alloc ring_over - rb_sz ring_over)
                       (unat (rb_sz ring_over) - unat (rb_alloc ring_over - rb_put ring_over)))))),
             dmesg := dmesg s_init @ LogOverflow # map LogLine (fst (spec_rate_limited rl_allow (rate_limit s_init)
                    (map c_string (spec_lines (rb_window ring_over (rb_alloc ring_over - rb_sz ring_over)
                       (unat (rb_sz ring_over) - unat (rb_alloc ring_over - rb_put ring_over)))))))\<rparr>))"
    by blast
  have "dump_loop rl_allow (\<lambda>_. ring_over) 1 0 s_init =
      Some (Inr (20, s_init\<lparr>line_buffer := buf, rate_limit := (),
         dmesg := [LogOverflow, LogLine ''efghijklmnopqrst'']\<rparr>))"
    using b0
    by (simp add: g ring_over_window l cs spec_rate_limited_single rl_allow_def s_init_def
          del: spec_rate_limited.simps)
  with p2 have "trusty_dump_logs rl_allow (\<lambda>_. ring_over) s_init =
      Some (Inr (s_init\<lparr>s_get := 20, line_buffer := buf, rate_limit := (),
         dmesg := [LogOverflow, LogLine ''efghijklmnopqrst'']\<rparr>))"
    by (simp add: trusty_dump_logs_def s_init_def)
  then show ?thesis by (intro exI) auto
qed

subsection \<open>Masking is reduction modulo the size\<close>

lemma nat_single_bit:
  "0 < n \<Longrightarrow> n AND (n - 1) = 0 \<Longrightarrow> \<exists>m. n = 2 ^ m" for n :: nat
proof (induction n rule: less_induct)
  case (less n)
  show ?case
  proof (cases "even n")
    case False
    then obtain k where n: "n = 2 * k + 1" by (auto elim: oddE)
    have "Suc (2 * k) AND 2 * k = 2 * k"
      by (subst and_nat_rec) simp
    then have "n AND (n - 1) = 2 * k" by (simp add: n)
    with less.prems(2) have "k = 0" by simp
    with n have "n = 2 ^ 0" by simp
    then show ?thesis by blast
  next
    case True
    then obtain k where n: "n = 2 * k" by (auto elim: evenE)
    with less.prems(1) have k: "0 < k" by simp
    then have h: "(2 * k - 1) div 2 = k - 1" by arith
    have "2 * k AND (2 * k - 1) = 2 * (k AND (k - 1))"
      by (subst and_nat_rec) (simp add: h [unfolded One_nat_def])
    then have "n AND (n - 1) = 2 * (k AND (k - 1))" by (simp add: n)
    with less.prems(2) have "k AND (k - 1) = 0" by simp
    moreover have "k < n" using n k by simp
    ultimately obtain m where "k = 2 ^ m" using less.IH k by blast
    with n have "n = 2 ^ Suc m" by simp
    then show ?thesis by blast
  qed
qed

lemma power_of_2_exp:
  assumes "is_power_of_2 sz"
  shows "\<exists>m<32. unat sz = 2 ^ m"
proof -
  from assms have nz: "sz \<noteq> 0" and z: "sz AND (sz - 1) = 0" by (simp_all add: is_power_of_2_def)
  from nz have pos: "0 < unat sz" by (simp add: unat_gt_0)
  have "unat (sz AND (sz - 1)) = unat sz AND unat (sz - 1)" by (simp add: unsigned_and_eq)
  also have "unat (sz - 1) = unat sz - 1" using nz by (simp add: unat_minus_one)
  finally have "unat sz AND (unat sz - 1) = 0" using z by simp
  from nat_single_bit [OF pos this] obtain m where m: "unat sz = 2 ^ m" by blast
  have "unat sz < 2 ^ 32" using unsigned_less [of sz, where ?'a = nat] by simp
  with m have "(2::nat) ^ m < 2 ^ 32" by simp
  then have "m < 32" by (rule power_less_imp_less_exp [rotated]) simp
  with m show ?thesis by blast
qed


lemma unat_plus_of_nat:
  "unat ((g :: u32) + of_nat k) = (unat g + k) mod 2 ^ LENGTH(32)"
proof -
  have "unat (g + of_nat k) = (unat g + k mod 2 ^ LENGTH(32)) mod 2 ^ LENGTH(32)"
    by (simp only: unat_word_ariths unat_of_nat)
  also have "\<dots> = (unat g + k) mod 2 ^ LENGTH(32)" by (rule mod_add_right_eq)
  finally show ?thesis .
qed

lemma masked_index_mod:
  assumes "is_power_of_2 sz"
  shows "unat ((g + of_nat k) AND (sz - 1)) = (unat g + k) mod unat sz"
proof -
  from power_of_2_exp [OF assms] obtain m where m: "m < 32" and u: "unat sz = 2 ^ m" by blast
  have "sz = of_nat (unat sz)" by simp
  also have "\<dots> = 2 ^ m" by (simp only: u) simp
  finally have sz: "sz = 2 ^ m" .
  have "sz - 1 = mask m" by (simp add: sz mask_eq_exp_minus_1)
  then have "(g + of_nat k) AND (sz - 1) = take_bit m (g + of_nat k)"
    by (simp only: take_bit_eq_mask)
  then have "unat ((g + of_nat k) AND (sz - 1)) = unat (take_bit m (g + of_nat k))"
    by (rule arg_cong)
  also have "\<dots> = take_bit m (unat (g + of_nat k))" by (rule unsigned_take_bit_eq)
  also have "\<dots> = unat (g + of_nat k) mod 2 ^ m" by (rule take_bit_eq_mod)
  also have "\<dots> = ((unat g + k) mod 2 ^ LENGTH(32)) mod 2 ^ m"
    by (simp only: unat_plus_of_nat)
  also have "\<dots> = (unat g + k) mod 2 ^ m"
  proof (rule mod_mod_cancel)
    from m have "m \<le> LENGTH(32)" by simp
    then show "(2 :: nat) ^ m dvd 2 ^ LENGTH(32)" by (rule le_imp_power_dvd)
  qed
  finally show ?thesis by (simp only: u)
qed

lemma masked_index_inj:
  assumes p2: "is_power_of_2 sz" and j: "j < unat sz" and k: "k < j"
  shows "unat ((g + of_nat k) AND (sz - 1)) \<noteq> unat ((g + of_nat j) AND (sz - 1))"
proof
  assume "unat ((g + of_nat k) AND (sz - 1)) = unat ((g + of_nat j) AND (sz - 1))"
  then have "(unat g + k) mod unat sz = (unat g + j) mod unat sz"
    by (simp only: masked_index_mod [OF p2])
  then have "unat sz dvd (unat g + j) - (unat g + k)"
    by (metis mod_eq_dvd_iff_nat add_le_cancel_left k less_imp_le_nat)
  then have "unat sz dvd j - k" by simp
  moreover have "0 < j - k" "j - k < unat sz" using j k by simp_all
  ultimately show False by (auto dest: dvd_imp_le)
qed

subsection \<open>When the drain returns\<close>

lemma power_of_2_le: "is_power_of_2 sz \<Longrightarrow> unat sz \<le> 2147483648"
proof -
  assume "is_power_of_2 sz"
  from power_of_2_exp [OF this] obtain m where m: "m < 32" and u: "unat sz = 2 ^ m" by blast
  from m have "m \<le> 31" by simp
  then have "(2 :: nat) ^ m \<le> 2 ^ 31" by (rule power_increasing) simp
  with u show ?thesis by simp
qed

lemma unat_sub_of_nat_wrap:
  assumes "unat (x :: u32) < n" and "n \<le> 255"
  shows "unat (x - of_nat n) = unat x + 4294967296 - n"
proof -
  from assms(2) have un: "unat (of_nat n :: u32) = n" by (simp add: unat_of_nat)
  have "unat (x - of_nat n) =
          (if unat (of_nat n :: u32) \<le> unat x then unat x - unat (of_nat n :: u32)
           else unat x + 2 ^ LENGTH(32) - unat (of_nat n :: u32))"
    by (rule unat_sub_if')
  with un assms(1) show ?thesis by simp
qed

lemma read_line_progress:
  assumes ok: "ring_ok log" and len: "length buf0 = TRUSTY_LINE_BUFFER_SIZE" and ne: "put \<noteq> get"
  shows "\<exists>buf n. log_read_line buf0 log put get = Some (buf, n) \<and>
           length buf = TRUSTY_LINE_BUFFER_SIZE \<and> 1 \<le> n \<and> n \<le> unat (put - get) \<and> n \<le> 255"
proof -
  let ?w = "rb_window log get (min (unat (put - get)) 255)"
  let ?fl = "spec_first_line ?w"
  let ?buf = "?fl @ NUL # drop (Suc (length ?fl)) buf0"
  have rd: "log_read_line buf0 log put get = Some (?buf, length ?fl)"
    by (rule log_read_line_char [OF ok len])
  from ne have "0 < unat (put - get)" by (simp add: unat_gt_0)
  then have "?w \<noteq> []" by (simp add: rb_window_def)
  then have "?fl \<noteq> []" by (rule spec_first_line_nonempty)
  then have n1: "1 \<le> length ?fl" by (cases ?fl) simp_all
  have nle: "length ?fl \<le> min (unat (put - get)) 255"
    using spec_first_line_length [of ?w] by (simp add: rb_window_length)
  then have bl: "length ?buf = TRUSTY_LINE_BUFFER_SIZE"
    using len by (simp add: TRUSTY_LINE_BUFFER_SIZE_def)
  from rd bl n1 nle show ?thesis by simp
qed

lemma dump_loop_settled_near:
  assumes p2: "is_power_of_2 c"
    and geo: "\<forall>t. rb_sz (shm t) = c \<and> length (rb_data (shm t)) = unat c"
  shows "length (line_buffer s) = TRUSTY_LINE_BUFFER_SIZE \<Longrightarrow>
         \<forall>t'\<ge>t. rb_put (shm t') = pu \<and> rb_alloc (shm t') = al \<Longrightarrow>
         unat (pu - get) = d \<Longrightarrow> d \<le> unat (al - get) \<Longrightarrow> unat (al - get) \<le> unat c \<Longrightarrow>
         \<exists>s'. dump_loop rl shm t get s = Some (Inr (pu, s'))"
proof (induction d arbitrary: get s t rule: less_induct)
  case (less d)
  from less.prems(2) have put: "rb_put (shm t) = pu" and al: "rb_alloc (shm (t + 2)) = al"
    and later: "\<forall>t'\<ge>t + 3. rb_put (shm t') = pu \<and> rb_alloc (shm t') = al" by simp_all
  show ?case
  proof (cases "d = 0")
    case True
    with less.prems(3) have "pu - get = 0" by (simp add: unat_eq_zero)
    then have "rb_put (shm t) = get" by (simp add: put)
    then have "dump_loop rl shm t get s = Some (Inr (get, s))" by (rule dump_loop_stop)
    with \<open>pu - get = 0\<close> show ?thesis by simp
  next
    case False
    with less.prems(3) have ne: "rb_put (shm t) \<noteq> get" by (auto simp: put)
    from p2 have "c \<noteq> 0" by (simp add: is_power_of_2_def)
    with geo have ok: "ring_ok (shm (t + 1))" by (simp add: ring_ok_def)
    from read_line_progress [OF ok less.prems(1) ne]
    obtain buf n where
      rd: "log_read_line (line_buffer s) (shm (t + 1)) (rb_put (shm t)) get = Some (buf, n)"
      and bl: "length buf = TRUSTY_LINE_BUFFER_SIZE" and n1: "1 \<le> n"
      and nd: "n \<le> unat (rb_put (shm t) - get)" by blast
    from nd have nd': "n \<le> d" by (simp add: put less.prems(3))
    let ?s1 = "s\<lparr>line_buffer := buf, rate_limit := snd (rl (rate_limit s)),
                 dmesg := dmesg s @ (if fst (rl (rate_limit s)) then [LogLine (c_string buf)] else [])\<rparr>"
    let ?g = "get + of_nat n"
    from geo have sz: "rb_sz (shm (t + 2)) = c" by simp
    have nov: "\<not> rb_alloc (shm (t + 2)) - get > rb_sz (shm (t + 2))"
      unfolding al sz using less.prems(5) by (simp add: word_less_nat_alt)
    have step: "dump_loop rl shm t get s = dump_loop rl shm (t + 3) ?g ?s1"
      by (rule dump_loop_emit [OF ne rd nov])
    have p: "pu - ?g = (pu - get) - of_nat n" and a: "al - ?g = (al - get) - of_nat n" by simp_all
    have d': "unat (pu - ?g) = d - n"
      unfolding p using nd' less.prems(3) by (simp add: unat_sub_of_nat)
    have a': "unat (al - ?g) = unat (al - get) - n"
      unfolding a using nd' less.prems(4) by (simp add: unat_sub_of_nat)
    have lt: "d - n < d" using n1 False by simp
    have len1: "length (line_buffer ?s1) = TRUSTY_LINE_BUFFER_SIZE" using bl by simp
    have b1: "d - n \<le> unat (al - ?g)" using less.prems(4) by (simp add: a')
    have b2: "unat (al - ?g) \<le> unat c" using less.prems(5) by (simp add: a')
    from less.IH [OF lt len1 later d' b1 b2] step show ?thesis by simp
  qed
qed

lemma dump_loop_settled_overflow:
  assumes p2: "is_power_of_2 c"
    and geo: "\<forall>t. rb_sz (shm t) = c \<and> length (rb_data (shm t)) = unat c"
    and len: "length (line_buffer s) = TRUSTY_LINE_BUFFER_SIZE"
    and cst: "\<forall>t'\<ge>t. rb_put (shm t') = pu \<and> rb_alloc (shm t') = al"
    and e: "unat (al - pu) \<le> unat c"
    and ne: "pu \<noteq> get" and ov: "unat c < unat (al - get)"
  shows "\<exists>s'. dump_loop rl shm t get s = Some (Inr (pu, s'))"
proof -
  from cst have put: "rb_put (shm t) = pu" and al: "rb_alloc (shm (t + 2)) = al"
    and later: "\<forall>t'\<ge>t + 3. rb_put (shm t') = pu \<and> rb_alloc (shm t') = al" by simp_all
  from geo have sz: "rb_sz (shm (t + 2)) = c" by simp
  from p2 have "c \<noteq> 0" by (simp add: is_power_of_2_def)
  with geo have ok: "ring_ok (shm (t + 1))" by (simp add: ring_ok_def)
  have ne': "rb_put (shm t) \<noteq> get" using ne by (simp add: put)
  from read_line_progress [OF ok len ne']
  obtain buf n where
    rd: "log_read_line (line_buffer s) (shm (t + 1)) (rb_put (shm t)) get = Some (buf, n)"
    and bl: "length buf = TRUSTY_LINE_BUFFER_SIZE" by blast
  let ?s1 = "s\<lparr>line_buffer := buf, dmesg := dmesg s @ [LogOverflow]\<rparr>"
  have ov': "rb_alloc (shm (t + 2)) - get > rb_sz (shm (t + 2))"
    unfolding al sz using ov by (simp add: word_less_nat_alt)
  have step: "dump_loop rl shm t get s = dump_loop rl shm (t + 3) (al - c) ?s1"
    using dump_loop_discard [OF ne' rd ov', of rl] unfolding al sz .
  have len1: "length (line_buffer ?s1) = TRUSTY_LINE_BUFFER_SIZE" using bl by simp
  have p: "pu - (al - c) = c - (al - pu)" by simp
  have d: "unat (pu - (al - c)) = unat c - unat (al - pu)"
    unfolding p using e by (simp add: unat_sub word_le_nat_alt)
  have a: "unat (al - (al - c)) = unat c" by simp
  have b1: "unat c - unat (al - pu) \<le> unat (al - (al - c))" unfolding a by simp
  have b2: "unat (al - (al - c)) \<le> unat c" unfolding a by simp
  from dump_loop_settled_near [OF p2 geo len1 later d b1 b2, of rl] step show ?thesis by simp
qed

lemma dump_loop_settled_behind:
  assumes p2: "is_power_of_2 c"
    and geo: "\<forall>t. rb_sz (shm t) = c \<and> length (rb_data (shm t)) = unat c"
    and e: "unat (al - pu) \<le> unat c"
  shows "length (line_buffer s) = TRUSTY_LINE_BUFFER_SIZE \<Longrightarrow>
         \<forall>t'\<ge>t. rb_put (shm t') = pu \<and> rb_alloc (shm t') = al \<Longrightarrow>
         unat (al - get) = a \<Longrightarrow> a \<le> unat c \<Longrightarrow>
         \<exists>s'. dump_loop rl shm t get s = Some (Inr (pu, s'))"
proof (induction a arbitrary: get s t rule: less_induct)
  case (less a)
  from less.prems(2) have put: "rb_put (shm t) = pu" and al: "rb_alloc (shm (t + 2)) = al"
    and later: "\<forall>t'\<ge>t + 3. rb_put (shm t') = pu \<and> rb_alloc (shm t') = al" by simp_all
  let ?d = "unat (pu - get)"
  show ?case
  proof (cases "?d \<le> a")
    case True
    then have d: "?d \<le> unat (al - get)" by (simp add: less.prems(3))
    have a: "unat (al - get) \<le> unat c" using less.prems(3,4) by simp
    from dump_loop_settled_near [OF p2 geo less.prems(1,2) refl d a] show ?thesis .
  next
    case False
    then have ne: "rb_put (shm t) \<noteq> get" by (auto simp: put)
    from p2 have "c \<noteq> 0" by (simp add: is_power_of_2_def)
    with geo have ok: "ring_ok (shm (t + 1))" by (simp add: ring_ok_def)
    from read_line_progress [OF ok less.prems(1) ne]
    obtain buf n where
      rd: "log_read_line (line_buffer s) (shm (t + 1)) (rb_put (shm t)) get = Some (buf, n)"
      and bl: "length buf = TRUSTY_LINE_BUFFER_SIZE" and n1: "1 \<le> n" and n255: "n \<le> 255"
      by blast
    let ?s1 = "s\<lparr>line_buffer := buf, rate_limit := snd (rl (rate_limit s)),
                 dmesg := dmesg s @ (if fst (rl (rate_limit s)) then [LogLine (c_string buf)] else [])\<rparr>"
    let ?g = "get + of_nat n"
    from geo have sz: "rb_sz (shm (t + 2)) = c" by simp
    have nov: "\<not> rb_alloc (shm (t + 2)) - get > rb_sz (shm (t + 2))"
      unfolding al sz using less.prems(3,4) by (simp add: word_less_nat_alt)
    have step: "dump_loop rl shm t get s = dump_loop rl shm (t + 3) ?g ?s1"
      by (rule dump_loop_emit [OF ne rd nov])
    have len1: "length (line_buffer ?s1) = TRUSTY_LINE_BUFFER_SIZE" using bl by simp
    have ag: "al - ?g = (al - get) - of_nat n" by simp
    show ?thesis
    proof (cases "n \<le> a")
      case True
      have a': "unat (al - ?g) = a - n"
        unfolding ag using True less.prems(3) by (simp add: unat_sub_of_nat)
      have lt: "a - n < a" using n1 True by simp
      have le: "a - n \<le> unat c" using less.prems(4) by simp
      from less.IH [OF lt len1 later a' le] step show ?thesis by simp
    next
      case big: False
      show ?thesis
      proof (cases "pu = ?g")
        case True
        then have "rb_put (shm (t + 3)) = ?g" using later by simp
        then have "dump_loop rl shm (t + 3) ?g ?s1 = Some (Inr (?g, ?s1))" by (rule dump_loop_stop)
        with step True show ?thesis by simp
      next
        case ne': False
        have lt: "unat (al - get) < n" using big less.prems(3) by simp
        have "unat (al - ?g) = unat (al - get) + 4294967296 - n"
          unfolding ag using lt n255 by (rule unat_sub_of_nat_wrap)
        moreover have "unat c \<le> 2147483648" using p2 by (rule power_of_2_le)
        ultimately have ov: "unat c < unat (al - ?g)" using n255 by simp
        from dump_loop_settled_overflow [OF p2 geo len1 later e ne' ov, of rl] step
        show ?thesis by simp
      qed
    qed
  qed
qed

lemma dump_loop_settled:
  assumes p2: "is_power_of_2 c"
    and geo: "\<forall>t. rb_sz (shm t) = c \<and> length (rb_data (shm t)) = unat c"
    and e: "unat (al - pu) \<le> unat c"
    and len: "length (line_buffer s) = TRUSTY_LINE_BUFFER_SIZE"
    and cst: "\<forall>t'\<ge>t. rb_put (shm t') = pu \<and> rb_alloc (shm t') = al"
  shows "\<exists>s'. dump_loop rl shm t get s = Some (Inr (pu, s'))"
proof (cases "unat (al - get) \<le> unat c")
  case True
  from dump_loop_settled_behind [OF p2 geo e len cst refl True] show ?thesis .
next
  case False
  then have ov: "unat c < unat (al - get)" by simp
  have ne: "pu \<noteq> get"
  proof
    assume "pu = get"
    with e ov show False by simp
  qed
  from dump_loop_settled_overflow [OF p2 geo len cst e ne ov] show ?thesis .
qed

lemma dump_loop_settles:
  assumes p2: "is_power_of_2 c"
    and geo: "\<forall>t. rb_sz (shm t) = c \<and> length (rb_data (shm t)) = unat c"
    and cst: "\<forall>t\<ge>T. rb_put (shm t) = pu \<and> rb_alloc (shm t) = al"
    and e: "unat (al - pu) \<le> unat c"
  shows "length (line_buffer s) = TRUSTY_LINE_BUFFER_SIZE \<Longrightarrow> T - t = k \<Longrightarrow>
         \<exists>j s'. dump_loop rl shm t get s = Some (Inr (rb_put (shm (t + 3 * j)), s'))"
proof (induction k arbitrary: t get s rule: less_induct)
  case (less k)
  show ?case
  proof (cases "T \<le> t")
    case True
    with cst have c': "\<forall>t'\<ge>t. rb_put (shm t') = pu \<and> rb_alloc (shm t') = al" by simp
    then have "rb_put (shm (t + 3 * 0)) = pu" by simp
    with dump_loop_settled [OF p2 geo e less.prems(1) c', of rl get] show ?thesis by metis
  next
    case False
    show ?thesis
    proof (cases "rb_put (shm t) = get")
      case True
      then have "dump_loop rl shm t get s = Some (Inr (rb_put (shm (t + 3 * 0)), s))"
        by (simp add: dump_loop_stop)
      then show ?thesis by blast
    next
      case ne: False
      from p2 have "c \<noteq> 0" by (simp add: is_power_of_2_def)
      with geo have ok: "ring_ok (shm (t + 1))" by (simp add: ring_ok_def)
      from dump_body_total [OF ok less.prems(1), of rl "shm (t + 2)" "rb_put (shm t)" get]
      obtain g' s' where b: "dump_body rl (shm (t + 1)) (shm (t + 2)) (rb_put (shm t)) get s = Inr (g', s')"
        and l': "length (line_buffer s') = TRUSTY_LINE_BUFFER_SIZE" by blast
      have step: "dump_loop rl shm t get s = dump_loop rl shm (t + 3) g' s'"
        using ne b by (rule dump_loop_turn)
      have lt: "T - (t + 3) < k" using False less.prems(2) by simp
      from less.IH [OF lt l' refl, of g']
      obtain j s1 where "dump_loop rl shm (t + 3) g' s' = Some (Inr (rb_put (shm (t + 3 + 3 * j)), s1))"
        by blast
      moreover have "t + 3 + 3 * j = t + 3 * Suc j" by simp
      ultimately have "dump_loop rl shm t get s = Some (Inr (rb_put (shm (t + 3 * Suc j)), s1))"
        using step by simp
      then show ?thesis by blast
    qed
  qed
qed

text \<open>
  C4, as amended: let the ring keep its size \<open>c\<close> and a data array of \<open>c\<close> bytes, and let
  the producer, from some observation on, leave the counters \<open>put\<close> and \<open>alloc\<close> unchanged
  with \<open>alloc - put \<le> c\<close>; before that it may reserve and commit as it likes, it may
  write bytes at any time, and the cursor may stand anywhere. Then the drain returns,
  without a fault, and, when \<open>c\<close> is a power of two, leaves the cursor at a value of
  \<open>put\<close> read at the top of one of its turns (the observations 1, 4, 7 and so on): it does
  not wait for more. And for any producer, when \<open>put\<close> equals the cursor at the first
  look the drain returns at once and changes nothing.
\<close>

theorem drain_returns_once_idle:
  assumes geo: "\<forall>t. rb_sz (shm t) = c \<and> length (rb_data (shm t)) = unat c"
    and cst: "\<forall>t\<ge>T. rb_put (shm t) = pu \<and> rb_alloc (shm t) = al"
    and e: "unat (al - pu) \<le> unat c"
    and len: "length (line_buffer s) = TRUSTY_LINE_BUFFER_SIZE"
  shows "(\<exists>s'. trusty_dump_logs rl shm s = Some (Inr s') \<and>
            (is_power_of_2 c \<longrightarrow> (\<exists>j. s_get s' = rb_put (shm (1 + 3 * j))))) \<and>
         (\<forall>shm'. is_power_of_2 (rb_sz (shm' 0)) \<and> rb_put (shm' 1) = s_get s \<longrightarrow>
            trusty_dump_logs rl shm' s = Some (Inr s))"
proof
  show "\<exists>s'. trusty_dump_logs rl shm s = Some (Inr s') \<and>
            (is_power_of_2 c \<longrightarrow> (\<exists>j. s_get s' = rb_put (shm (1 + 3 * j))))"
  proof (cases "is_power_of_2 c")
    case False
    with geo have "\<not> is_power_of_2 (rb_sz (shm 0))" by simp
    then have "trusty_dump_logs rl shm s = Some (Inr (s\<lparr>dmesg := dmesg s @ [ConfigWarn]\<rparr>))"
      by (simp add: trusty_dump_logs_def)
    with False show ?thesis by simp
  next
    case True
    with geo have p: "is_power_of_2 (rb_sz (shm 0))" by simp
    from dump_loop_settles [OF True geo cst e len refl, of rl 1 "s_get s"]
    obtain j s1 where "dump_loop rl shm 1 (s_get s) s = Some (Inr (rb_put (shm (1 + 3 * j)), s1))"
      by blast
    with p have "trusty_dump_logs rl shm s = Some (Inr (s1\<lparr>s_get := rb_put (shm (1 + 3 * j))\<rparr>))"
      by (simp add: trusty_dump_logs_def)
    then show ?thesis
      by (intro exI [of _ "s1\<lparr>s_get := rb_put (shm (1 + 3 * j))\<rparr>"]) auto
  qed
next
  show "\<forall>shm'. is_power_of_2 (rb_sz (shm' 0)) \<and> rb_put (shm' 1) = s_get s \<longrightarrow>
            trusty_dump_logs rl shm' s = Some (Inr s)"
    by (simp add: trusty_dump_logs_def dump_loop_stop)
qed

theorem drain_returns_once_idle_witness:
  "(\<forall>t. rb_sz (shm_live t) = 16 \<and> length (rb_data (shm_live t)) = unat (16 :: u32)) \<and>
   unat (6 - 6 :: u32) \<le> unat (16 :: u32) \<and>
   length (line_buffer s_init) = TRUSTY_LINE_BUFFER_SIZE \<and> is_power_of_2 (16 :: u32) \<and>
   (\<exists>j s'. trusty_dump_logs rl_allow shm_live s_init = Some (Inr s') \<and>
      s_get s' = rb_put (shm_live (1 + 3 * j))) \<and>
   unat (30 - 20 :: u32) \<le> unat (16 :: u32) \<and>
   (\<exists>s'. trusty_dump_logs rl_allow (\<lambda>_. ring_ahead) (s_init\<lparr>s_get := 24\<rparr>) = Some (Inr s') \<and>
      s_get s' = 20) \<and>
   is_power_of_2 (rb_sz ((\<lambda>_. ring_empty) 0)) \<and> rb_put ((\<lambda>_. ring_empty) 1) = s_get s_init \<and>
   trusty_dump_logs rl_allow (\<lambda>_. ring_empty) s_init = Some (Inr s_init)"
proof -
  have a: "is_power_of_2 (16 :: u32)" by (simp add: is_power_of_2_def)
  have b: "\<forall>t. rb_sz (shm_live t) = 16 \<and> length (rb_data (shm_live t)) = unat (16 :: u32)"
    by (simp add: shm_live_def)
  have i: "\<forall>t\<ge>3. rb_put (shm_live t) = 6 \<and> rb_alloc (shm_live t) = 6" by (simp add: shm_live_def)
  have e: "unat (6 - 6 :: u32) \<le> unat (16 :: u32)" by simp
  have c: "length (line_buffer s_init) = TRUSTY_LINE_BUFFER_SIZE"
    by (simp add: s_init_def TRUSTY_LINE_BUFFER_SIZE_def)
  have b': "\<forall>t. rb_sz ((\<lambda>_. ring_ahead) t) = 16 \<and>
              length (rb_data ((\<lambda>_. ring_ahead) t)) = unat (16 :: u32)"
    by (simp add: ring_ahead_def)
  have i': "\<forall>t\<ge>0. rb_put ((\<lambda>_. ring_ahead) t) = 20 \<and> rb_alloc ((\<lambda>_. ring_ahead) t) = 30"
    by (simp add: ring_ahead_def)
  have e': "unat (30 - 20 :: u32) \<le> unat (16 :: u32)" by simp
  have c': "length (line_buffer (s_init\<lparr>s_get := 24\<rparr>)) = TRUSTY_LINE_BUFFER_SIZE"
    by (simp add: s_init_def TRUSTY_LINE_BUFFER_SIZE_def)
  have f: "is_power_of_2 (rb_sz ((\<lambda>_. ring_empty) 0))" "rb_put ((\<lambda>_. ring_empty) 1) = s_get s_init"
    by (simp_all add: is_power_of_2_def ring_empty_def s_init_def)
  note th = drain_returns_once_idle [OF b i e c, of rl_allow]
  from th a have g: "\<exists>j s'. trusty_dump_logs rl_allow shm_live s_init = Some (Inr s') \<and>
      s_get s' = rb_put (shm_live (1 + 3 * j))" by blast
  from drain_returns_once_idle [OF b' i' e' c', of rl_allow] a
  have g': "\<exists>s'. trusty_dump_logs rl_allow (\<lambda>_. ring_ahead) (s_init\<lparr>s_get := 24\<rparr>) = Some (Inr s') \<and>
      s_get s' = 20" by (auto simp: ring_ahead_def)
  from th [THEN conjunct2, THEN spec, of "\<lambda>_. ring_empty"] f
  have h: "trusty_dump_logs rl_allow (\<lambda>_. ring_empty) s_init = Some (Inr s_init)"
    by simp
  from a b e c g e' g' f h show ?thesis by blast
qed

lemma busy_window: "rb_window (shm_busy t) g (Suc 0) = [NL]"
proof -
  have "unat (g AND 15) \<le> unat (15 :: u32)"
    by (rule word_and_le1 [THEN word_le_nat_alt [THEN iffD1]])
  then have "unat (g AND 15) < 16" by simp
  then show ?thesis by (simp add: rb_window_def shm_busy_def)
qed

lemma busy_loop_aux:
  assumes run: "dump_loop rl shm t get s = Some y"
  shows "\<not> (shm = shm_busy \<and> (\<exists>k. t = 3 * k + 1 \<and> get = of_nat k) \<and>
            length (line_buffer s) = TRUSTY_LINE_BUFFER_SIZE)"
proof (rule dump_loop.raw_induct
    [where P = "\<lambda>rl shm t get s y. \<not> (shm = shm_busy \<and> (\<exists>k. t = 3 * k + 1 \<and> get = of_nat k) \<and>
            length (line_buffer s) = TRUSTY_LINE_BUFFER_SIZE)", OF _ run], goal_cases)
  case (1 dump_loop rl shm t get s y)
  show ?case
  proof
    assume "shm = shm_busy \<and> (\<exists>k. t = 3 * k + 1 \<and> get = of_nat k) \<and>
            length (line_buffer s) = TRUSTY_LINE_BUFFER_SIZE"
    then obtain k where shm: "shm = shm_busy" and t: "t = 3 * k + 1" and g: "get = of_nat k"
      and len: "length (line_buffer s) = TRUSTY_LINE_BUFFER_SIZE" by blast
    have tdiv: "t div 3 = k" "Suc (Suc t) div 3 = Suc k" using t by presburger+
    have put: "rb_put (shm t) = get + 1" by (simp add: shm tdiv g shm_busy_def)
    have alloc: "rb_alloc (shm (t + 2)) = get + 2" "rb_sz (shm (t + 2)) = 16"
      by (simp_all add: shm tdiv g shm_busy_def)
    have ok: "ring_ok (shm_busy (t + 1))" by (simp add: ring_ok_def shm_busy_def)
    let ?buf = "[NL] @ NUL # drop (Suc (length [NL])) (line_buffer s)"
    have rd: "log_read_line (line_buffer s) (shm (t + 1)) (get + 1) get = Some (?buf, 1)"
      using log_read_line_char [OF ok len, of "get + 1" get] by (simp add: shm busy_window)
    let ?s' = "s\<lparr>line_buffer := ?buf, rate_limit := snd (rl (rate_limit s)),
                 dmesg := dmesg s @ (if fst (rl (rate_limit s)) then [LogLine (c_string ?buf)] else [])\<rparr>"
    have nov: "\<not> rb_alloc (shm (t + 2)) - get > rb_sz (shm (t + 2))"
      unfolding alloc by simp
    have "dump_body rl (shm (t + 1)) (shm (t + 2)) (get + 1) get s = Inr (get + 1, ?s')"
      using dump_body_emit [OF rd nov, of rl] by simp
    with 1(2) have "dump_loop rl shm (t + 3) (get + 1) ?s' = Some y"
      by (simp add: put Let_def)
    from 1(1) [OF this] have "\<not> (shm = shm_busy \<and> (\<exists>k. t + 3 = 3 * k + 1 \<and> get + 1 = of_nat k) \<and>
            length (line_buffer ?s') = TRUSTY_LINE_BUFFER_SIZE)" .
    moreover have "t + 3 = 3 * (k + 1) + 1 \<and> get + 1 = of_nat (k + 1)" by (simp add: t g)
    then have "\<exists>k. t + 3 = 3 * k + 1 \<and> get + 1 = of_nat k" by blast
    moreover have "length (line_buffer ?s') = TRUSTY_LINE_BUFFER_SIZE"
      using len by (simp add: TRUSTY_LINE_BUFFER_SIZE_def)
    ultimately show False using shm by blast
  qed
qed

text \<open>
  C4, as stated, fails: \<^verbatim>\<open>log->put\<close> is read again at the top of every turn, so the drain
  is not bounded by the first value it saw. Against a producer that commits one more line
  during every turn the loop never ends.
\<close>

theorem busy_producer_counterexample:
  "is_power_of_2 (rb_sz (shm_busy 0)) \<and> trusty_dump_logs rl_allow shm_busy s_init = None"
proof -
  have p2: "is_power_of_2 (rb_sz (shm_busy 0))" by (simp add: is_power_of_2_def shm_busy_def)
  have "dump_loop rl_allow shm_busy 1 (s_get s_init) s_init = None"
  proof (cases "dump_loop rl_allow shm_busy 1 (s_get s_init) s_init")
    case None
    then show ?thesis .
  next
    case (Some y)
    from busy_loop_aux [OF this] have False
      by (simp add: s_init_def TRUSTY_LINE_BUFFER_SIZE_def)
    then show ?thesis ..
  qed
  with p2 show ?thesis by (simp add: trusty_dump_logs_def)
qed

text \<open>
  A drain of an idle ring need not return either. When the producer has written more than
  \<open>sz\<close> bytes beyond \<open>put\<close>, the jump to \<open>alloc - sz\<close> carries the cursor past \<open>put\<close>; the
  cursor then runs on to beyond \<open>alloc\<close>, overflows, and jumps back, for ever.
\<close>

lemma stall_read:
  assumes len: "length (line_buffer s) = TRUSTY_LINE_BUFFER_SIZE"
  shows "\<exists>buf. length buf = TRUSTY_LINE_BUFFER_SIZE \<and>
           log_read_line (line_buffer s) ring_stall put get = Some (buf, min (unat (put - get)) 255)"
proof -
  let ?w = "rb_window ring_stall get (min (unat (put - get)) 255)"
  have ok: "ring_ok ring_stall" by (simp add: ring_ok_def ring_stall_def)
  have "set ?w \<subseteq> set (rb_data ring_stall)" using ok by (rule rb_window_set)
  then have "NL \<notin> set ?w" by (auto simp: ring_stall_def)
  then have fl: "spec_first_line ?w = ?w" by (rule spec_first_line_no_nl)
  have "length (?w @ NUL # drop (Suc (length ?w)) (line_buffer s)) = TRUSTY_LINE_BUFFER_SIZE"
    using len by (simp add: rb_window_length TRUSTY_LINE_BUFFER_SIZE_def)
  moreover have "log_read_line (line_buffer s) ring_stall put get =
      Some (?w @ NUL # drop (Suc (length ?w)) (line_buffer s), length ?w)"
    using log_read_line_char [OF ok len, of put get] by (simp only: fl)
  ultimately show ?thesis by (simp only: rb_window_length) blast
qed

lemma stall_loop_aux:
  assumes run: "dump_loop rl shm t get s = Some y"
  shows "\<not> (shm = (\<lambda>_. ring_stall) \<and> (get = 0 \<or> get = 24 \<or> get = 279) \<and>
            length (line_buffer s) = TRUSTY_LINE_BUFFER_SIZE)"
proof (rule dump_loop.raw_induct
    [where P = "\<lambda>rl shm t get s y. \<not> (shm = (\<lambda>_. ring_stall) \<and> (get = 0 \<or> get = 24 \<or> get = 279) \<and>
            length (line_buffer s) = TRUSTY_LINE_BUFFER_SIZE)", OF _ run], goal_cases)
  case (1 dump_loop rl shm t get s y)
  show ?case
  proof
    assume "shm = (\<lambda>_. ring_stall) \<and> (get = 0 \<or> get = 24 \<or> get = 279) \<and>
            length (line_buffer s) = TRUSTY_LINE_BUFFER_SIZE"
    then have shm: "shm = (\<lambda>_. ring_stall)" and g: "get = 0 \<or> get = 24 \<or> get = 279"
      and len: "length (line_buffer s) = TRUSTY_LINE_BUFFER_SIZE" by blast+
    have f: "rb_put ring_stall = 20" "rb_alloc ring_stall = 40" "rb_sz ring_stall = 16"
      by (simp_all add: ring_stall_def)
    from stall_read [OF len, of 20 get] obtain buf where
      bl: "length buf = TRUSTY_LINE_BUFFER_SIZE"
      and rd: "log_read_line (line_buffer s) ring_stall 20 get = Some (buf, min (unat (20 - get)) 255)"
      by blast
    from g show False
    proof (elim disjE)
      assume g0: "get = 0"
      from 1(2) dump_body_discard [OF rd, of ring_stall rl]
      have "dump_loop rl shm (t + 3) 24
          (s\<lparr>line_buffer := buf, dmesg := dmesg s @ [LogOverflow]\<rparr>) = Some y"
        by (simp add: shm f g0 Let_def)
      from 1(1) [OF this] shm bl show False by simp
    next
      assume g1: "get = 24"
      from 1(2) dump_body_emit [OF rd, of ring_stall rl]
      have "dump_loop rl shm (t + 3) 279
          (s\<lparr>line_buffer := buf, rate_limit := snd (rl (rate_limit s)),
             dmesg := dmesg s @ (if fst (rl (rate_limit s)) then [LogLine (c_string buf)] else [])\<rparr>) = Some y"
        by (simp add: shm f g1 Let_def)
      from 1(1) [OF this] shm bl show False by simp
    next
      assume g2: "get = 279"
      from 1(2) dump_body_discard [OF rd, of ring_stall rl]
      have "dump_loop rl shm (t + 3) 24
          (s\<lparr>line_buffer := buf, dmesg := dmesg s @ [LogOverflow]\<rparr>) = Some y"
        by (simp add: shm f g2 Let_def)
      from 1(1) [OF this] shm bl show False by simp
    qed
  qed
qed

lemma stalled_commit_never_returns:
  "is_power_of_2 (rb_sz ring_stall) \<and> trusty_dump_logs rl (\<lambda>_. ring_stall) s_init = None"
proof -
  have p2: "is_power_of_2 (rb_sz ring_stall)" by (simp add: is_power_of_2_def ring_stall_def)
  have "dump_loop rl (\<lambda>_. ring_stall) 1 (s_get s_init) s_init = None"
  proof (cases "dump_loop rl (\<lambda>_. ring_stall) 1 (s_get s_init) s_init")
    case None
    then show ?thesis .
  next
    case (Some y)
    from stall_loop_aux [OF this] have False
      by (simp add: s_init_def TRUSTY_LINE_BUFFER_SIZE_def)
    then show ?thesis ..
  qed
  with p2 show ?thesis by (simp add: trusty_dump_logs_def)
qed
subsection \<open>Writes and drains in turn\<close>

lemma rb_put_byte_fields [simp]:
  "rb_sz (rb_put_byte log c) = rb_sz log"
  "rb_put (rb_put_byte log c) = rb_put log"
  "rb_alloc (rb_put_byte log c) = rb_alloc log + 1"
  "length (rb_data (rb_put_byte log c)) = length (rb_data log)"
  by (simp_all add: rb_put_byte_def)

lemma foldl_put_fields:
  "rb_sz (foldl rb_put_byte log w) = rb_sz log \<and>
   rb_put (foldl rb_put_byte log w) = rb_put log \<and>
   rb_alloc (foldl rb_put_byte log w) = rb_alloc log + of_nat (length w) \<and>
   length (rb_data (foldl rb_put_byte log w)) = length (rb_data log)"
  by (induction w arbitrary: log) simp_all

lemma foldl_put_data:
  assumes p2: "is_power_of_2 (rb_sz log)" and dl: "length (rb_data log) = unat (rb_sz log)"
  shows "length w \<le> unat (rb_sz log) \<Longrightarrow> k < length w \<Longrightarrow>
         rb_data (foldl rb_put_byte log w) ! unat ((rb_alloc log + of_nat k) AND (rb_sz log - 1)) = w ! k"
proof (induction w arbitrary: k rule: rev_induct)
  case Nil
  then show ?case by simp
next
  case (snoc c w)
  let ?log' = "foldl rb_put_byte log w"
  let ?i = "\<lambda>n. unat ((rb_alloc log + of_nat n) AND (rb_sz log - 1))"
  have f: "rb_sz ?log' = rb_sz log" "rb_alloc ?log' = rb_alloc log + of_nat (length w)"
    "length (rb_data ?log') = length (rb_data log)"
    using foldl_put_fields [of log w] by simp_all
  have lw: "length w < unat (rb_sz log)" using snoc.prems(1) by simp
  have nz: "rb_sz log \<noteq> 0" using p2 by (simp add: is_power_of_2_def)
  have ib: "?i (length w) < length (rb_data ?log')"
    using rb_index_bound [OF nz, of "rb_alloc log + of_nat (length w)"] dl
    by (simp add: rb_index_eq f)
  have d: "rb_data (rb_put_byte ?log' c) = (rb_data ?log')[?i (length w) := c]"
    by (simp add: rb_put_byte_def f)
  show ?case
  proof (cases "k = length w")
    case True
    with ib show ?thesis by (simp add: d)
  next
    case False
    with snoc.prems(2) have kl: "k < length w" by simp
    from masked_index_inj [OF p2 lw kl, of "rb_alloc log"]
    have "?i k \<noteq> ?i (length w)" .
    then have "(rb_data ?log')[?i (length w) := c] ! ?i k = rb_data ?log' ! ?i k" by simp
    also have "\<dots> = w ! k" using snoc.IH [OF _ kl] lw by simp
    finally show ?thesis using kl by (simp add: d nth_append)
  qed
qed

lemma producer_write_fields:
  "rb_sz (producer_write log w) = rb_sz log"
  "rb_alloc (producer_write log w) = rb_alloc log + of_nat (length w)"
  "rb_put (producer_write log w) = rb_alloc log + of_nat (length w)"
  "length (rb_data (producer_write log w)) = length (rb_data log)"
  using foldl_put_fields [of log w] by (simp_all add: producer_write_def Let_def)

lemma producer_write_window:
  assumes "is_power_of_2 (rb_sz log)" and "length (rb_data log) = unat (rb_sz log)"
    and "length w \<le> unat (rb_sz log)"
  shows "rb_window (producer_write log w) (rb_alloc log) (length w) = w"
proof (rule nth_equalityI)
  show "length (rb_window (producer_write log w) (rb_alloc log) (length w)) = length w"
    by (simp add: rb_window_length)
next
  fix k assume "k < length (rb_window (producer_write log w) (rb_alloc log) (length w))"
  then have k: "k < length w" by (simp add: rb_window_length)
  then show "rb_window (producer_write log w) (rb_alloc log) (length w) ! k = w ! k"
    using foldl_put_data [OF assms k]
    by (simp add: rb_window_def producer_write_fields) (simp add: producer_write_def Let_def)
qed


lemma spec_rate_limited_append:
  "spec_rate_limited rl r (xs @ ys) =
     (fst (spec_rate_limited rl r xs) @ fst (spec_rate_limited rl (snd (spec_rate_limited rl r xs)) ys),
      snd (spec_rate_limited rl (snd (spec_rate_limited rl r xs)) ys))"
  by (induction xs arbitrary: r) (simp_all add: split_beta)


lemma unat_of_nat_small: "n \<le> unat (c :: u32) \<Longrightarrow> unat (of_nat n :: u32) = n"
proof -
  assume "n \<le> unat c"
  moreover have "unat c < 2 ^ LENGTH(32)" by (rule unsigned_less)
  ultimately have "n < 2 ^ LENGTH(32)" by (rule le_less_trans)
  then show ?thesis by (simp only: unat_of_nat mod_less)
qed

lemma drain_session_aux:
  "is_power_of_2 (rb_sz log) \<Longrightarrow> length (rb_data log) = unat (rb_sz log) \<Longrightarrow>
   length (line_buffer s) = TRUSTY_LINE_BUFFER_SIZE \<Longrightarrow>
   rb_put log = s_get s \<Longrightarrow> rb_alloc log = s_get s \<Longrightarrow>
   \<forall>w\<in>set ws. length w \<le> unat (rb_sz log) \<Longrightarrow>
   \<exists>log' s'. drain_session rl ws log s = Some (log', s') \<and>
      s_get s' = rb_put log' \<and> rb_put log' = s_get s + of_nat (length (concat ws)) \<and>
      dmesg s' = dmesg s @ map LogLine (fst (spec_rate_limited rl (rate_limit s)
                    (map c_string (concat (map spec_lines ws))))) \<and>
      rate_limit s' = snd (spec_rate_limited rl (rate_limit s)
                    (map c_string (concat (map spec_lines ws))))"
proof (induction ws arbitrary: log s)
  case Nil
  then show ?case by simp
next
  case (Cons w ws)
  let ?log1 = "producer_write log w"
  let ?L1 = "map c_string (spec_lines w)"
  let ?L2 = "map c_string (concat (map spec_lines ws))"
  let ?r1 = "snd (spec_rate_limited rl (rate_limit s) ?L1)"
  have wl: "length w \<le> unat (rb_sz log)" using Cons.prems(6) by simp
  have f: "rb_sz ?log1 = rb_sz log" "rb_alloc ?log1 = s_get s + of_nat (length w)"
    "rb_put ?log1 = s_get s + of_nat (length w)" "length (rb_data ?log1) = length (rb_data log)"
    by (simp_all add: producer_write_fields Cons.prems(5))
  have p2: "is_power_of_2 (rb_sz ?log1)" using Cons.prems(1) by (simp add: f)
  have dl: "length (rb_data ?log1) = unat (rb_sz ?log1)" using Cons.prems(2) by (simp add: f)
  have u: "unat (rb_put ?log1 - s_get s) = length w" "unat (rb_alloc ?log1 - s_get s) = length w"
    using unat_of_nat_small [OF wl] by (simp_all add: f)
  have d: "unat (rb_put ?log1 - s_get s) \<le> unat (rb_alloc ?log1 - s_get s)"
    unfolding u by simp
  have a: "unat (rb_alloc ?log1 - s_get s) \<le> unat (rb_sz ?log1)"
    unfolding u f(1) by (rule wl)
  have win: "rb_window ?log1 (s_get s) (unat (rb_put ?log1 - s_get s)) = w"
    using producer_write_window [OF Cons.prems(1,2) wl] by (simp add: u Cons.prems(5))
  from trusty_dump_logs_static [OF p2 dl Cons.prems(3) d a, of rl]
  obtain buf where bl: "length buf = TRUSTY_LINE_BUFFER_SIZE"
    and run: "trusty_dump_logs rl (\<lambda>_. ?log1) s =
       Some (Inr (s\<lparr>s_get := rb_put ?log1, line_buffer := buf, rate_limit := ?r1,
          dmesg := dmesg s @ map LogLine (fst (spec_rate_limited rl (rate_limit s) ?L1))\<rparr>))"
    unfolding win by blast
  let ?s1 = "s\<lparr>s_get := rb_put ?log1, line_buffer := buf, rate_limit := ?r1,
          dmesg := dmesg s @ map LogLine (fst (spec_rate_limited rl (rate_limit s) ?L1))\<rparr>"
  have ws: "\<forall>w\<in>set ws. length w \<le> unat (rb_sz ?log1)" using Cons.prems(6) by (simp add: f)
  have i1: "length (line_buffer ?s1) = TRUSTY_LINE_BUFFER_SIZE" using bl by simp
  have i2: "rb_put ?log1 = s_get ?s1" by simp
  have i3: "rb_alloc ?log1 = s_get ?s1" by (simp add: f)
  from Cons.IH [OF p2 dl i1 i2 i3 ws]
  obtain log' s' where r: "drain_session rl ws ?log1 ?s1 = Some (log', s')"
    and g: "s_get s' = rb_put log'"
    and pp: "rb_put log' = s_get ?s1 + of_nat (length (concat ws))"
    and dm: "dmesg s' = dmesg ?s1 @ map LogLine (fst (spec_rate_limited rl (rate_limit ?s1) ?L2))"
    and rr: "rate_limit s' = snd (spec_rate_limited rl (rate_limit ?s1) ?L2)"
    by blast
  have c: "map c_string (concat (map spec_lines (w # ws))) = ?L1 @ ?L2" by simp
  have "drain_session rl (w # ws) log s = Some (log', s')" by (simp add: run r)
  moreover have "rb_put log' = s_get s + of_nat (length (concat (w # ws)))"
    using pp by (simp add: f)
  moreover have "dmesg s' = dmesg s @ map LogLine (fst (spec_rate_limited rl (rate_limit s)
                    (map c_string (concat (map spec_lines (w # ws))))))"
    unfolding c spec_rate_limited_append using dm by simp
  moreover have "rate_limit s' = snd (spec_rate_limited rl (rate_limit s)
                    (map c_string (concat (map spec_lines (w # ws)))))"
    unfolding c spec_rate_limited_append using rr by simp
  ultimately show ?case using g by blast
qed


subsection \<open>Drains while the producer runs\<close>

lemma spec_drain_Suc:
  assumes "spec_drain (Suc k) stream P A cap t G = Some (G', ls)"
  shows "G \<le> P t \<and> A t \<le> G + cap \<and>
         (P t = G \<and> G' = G \<and> ls = [] \<or>
          G < P t \<and> A (t + 2) \<le> G + cap \<and>
          (\<exists>ls'. ls = spec_first_line (map stream [G..<min (P t) (G + 255)]) # ls' \<and>
             spec_drain k stream P A cap (t + 3)
               (G + length (spec_first_line (map stream [G..<min (P t) (G + 255)]))) = Some (G', ls')))"
  using assms
  by (auto simp: Let_def TRUSTY_LINE_BUFFER_SIZE_def split: if_splits option.splits)

lemma stream_first_line:
  assumes "G < p"
  shows "spec_first_line (map stream [G..<min p (G + 255)]) \<noteq> [] \<and>
         length (spec_first_line (map stream [G..<min p (G + 255)])) \<le> min (p - G) 255 \<and>
         spec_first_line (map stream [G..<min p (G + 255)]) =
           map stream [G..<G + length (spec_first_line (map stream [G..<min p (G + 255)]))]"
proof -
  let ?w = "map stream [G..<min p (G + 255)]"
  let ?l = "spec_first_line ?w"
  have lw: "length ?w = min (p - G) 255" by auto
  from assms have "?w \<noteq> []" by simp
  then have ne: "?l \<noteq> []" by (rule spec_first_line_nonempty)
  have le: "length ?l \<le> min (p - G) 255"
    using spec_first_line_length [of ?w] by (simp only: lw)
  have "?l = take (length ?l) ?w" by (simp only: spec_first_line_prefix)
  also have "\<dots> = map stream (take (length ?l) [G..<min p (G + 255)])" by (simp only: take_map)
  also have "take (length ?l) [G..<min p (G + 255)] = [G..<G + length ?l]"
  proof (rule take_upt)
    show "G + length ?l \<le> min p (G + 255)" using le assms by arith
  qed
  finally have "?l = map stream [G..<G + length ?l]" .
  with ne le show ?thesis by blast
qed

lemma spec_drain_lines:
  "spec_drain k stream P A cap t G = Some (G', ls) \<Longrightarrow>
   G \<le> G' \<and> concat ls = map stream [G..<G'] \<and> (\<exists>t'. G' = P t') \<and>
   (\<forall>l\<in>set ls. l \<noteq> [] \<and> length l \<le> 255 \<and> NL \<notin> set (butlast l)) \<and>
   (\<forall>i<length ls. last (ls ! i) = NL \<or> length (ls ! i) = 255 \<or>
      (\<exists>t'. G + length (concat (take (Suc i) ls)) = P t'))"
proof (induction k arbitrary: t G ls)
  case 0
  then show ?case by simp
next
  case (Suc k)
  let ?w = "map stream [G..<min (P t) (G + 255)]"
  let ?l = "spec_first_line ?w"
  from spec_drain_Suc [OF Suc.prems]
  consider (stop) "P t = G" "G' = G" "ls = []"
    | (turn) ls' where "G < P t" "ls = ?l # ls'"
        "spec_drain k stream P A cap (t + 3) (G + length ?l) = Some (G', ls')"
    by blast
  then show ?case
  proof cases
    case stop
    then show ?thesis by auto
  next
    case turn
    from stream_first_line [OF turn(1), of stream]
    have ne: "?l \<noteq> []" and le: "length ?l \<le> min (P t - G) 255"
      and eq: "?l = map stream [G..<G + length ?l]" by blast+
    from Suc.IH [OF turn(3)]
    have g: "G + length ?l \<le> G'" and c: "concat ls' = map stream [G + length ?l..<G']"
      and p: "\<exists>t'. G' = P t'"
      and a: "\<forall>l\<in>set ls'. l \<noteq> [] \<and> length l \<le> 255 \<and> NL \<notin> set (butlast l)"
      and b: "\<forall>i<length ls'. last (ls' ! i) = NL \<or> length (ls' ! i) = 255 \<or>
                (\<exists>t'. G + length ?l + length (concat (take (Suc i) ls')) = P t')"
      by blast+
    have g': "G \<le> G'" using g by simp
    have "[G..<G'] = [G..<G + length ?l] @ [G + length ?l..<G']"
      using g by (metis le_add1 le_Suc_ex upt_add_eq_append)
    then have "map stream [G..<G'] = map stream [G..<G + length ?l] @ map stream [G + length ?l..<G']"
      by simp
    then have c': "concat ls = map stream [G..<G']"
      unfolding turn(2) using eq c by simp
    have nl: "NL \<notin> set (butlast ?l)" using spec_first_line_stop [of ?w] by simp
    have a': "\<forall>l\<in>set ls. l \<noteq> [] \<and> length l \<le> 255 \<and> NL \<notin> set (butlast l)"
      unfolding turn(2) using ne le nl a by simp
    have first: "last ?l = NL \<or> length ?l = 255 \<or> G + length ?l = P t"
    proof (cases "?l = ?w")
      case True
      then have "length ?l = length ?w" by simp
      then have "length ?l = min (P t - G) 255" by simp
      with turn(1) show ?thesis by (auto simp: min_def split: if_splits)
    next
      case False
      with spec_first_line_stop [of ?w] show ?thesis by auto
    qed
    have b': "\<forall>i<length ls. last (ls ! i) = NL \<or> length (ls ! i) = 255 \<or>
                (\<exists>t'. G + length (concat (take (Suc i) ls)) = P t')"
    proof (intro allI impI)
      fix i assume i: "i < length ls"
      show "last (ls ! i) = NL \<or> length (ls ! i) = 255 \<or>
                (\<exists>t'. G + length (concat (take (Suc i) ls)) = P t')"
      proof (cases i)
        case 0
        with first show ?thesis unfolding turn(2) by auto
      next
        case (Suc j)
        with i have j: "j < length ls'" unfolding turn(2) by simp
        from b [rule_format, OF j] show ?thesis
          unfolding turn(2) Suc by (simp add: add.assoc)
      qed
    qed
    from g' c' p a' b' show ?thesis by blast
  qed
qed


lemma unat_of_nat_diff:
  assumes "a \<le> b" and "b - a \<le> unat (c :: u32)"
  shows "unat ((g0 + of_nat b) - (g0 + of_nat a) :: u32) = b - a"
proof -
  have "(g0 + of_nat b) - (g0 + of_nat a) = (of_nat (b - a) :: u32)"
    using assms(1) by (simp add: of_nat_diff)
  with unat_of_nat_small [OF assms(2)] show ?thesis by simp
qed

lemma stream_window:
  assumes sz: "rb_sz log = c"
    and dat: "\<forall>k. k < p \<and> a \<le> k + unat c \<longrightarrow>
                rb_data log ! unat ((g0 + of_nat k) AND (c - 1)) = stream k"
    and n: "G + n \<le> p" and a: "a \<le> G + unat c"
  shows "rb_window log (g0 + of_nat G) n = map stream [G..<G + n]"
proof (rule nth_equalityI)
  show "length (rb_window log (g0 + of_nat G) n) = length (map stream [G..<G + n])"
    by (simp add: rb_window_length)
next
  fix j assume "j < length (rb_window log (g0 + of_nat G) n)"
  then have j: "j < n" by (simp add: rb_window_length)
  then have "G + j < p \<and> a \<le> G + j + unat c" using n a by simp
  with dat have "rb_data log ! unat ((g0 + of_nat (G + j)) AND (c - 1)) = stream (G + j)" by blast
  then show "rb_window log (g0 + of_nat G) n ! j = map stream [G..<G + n] ! j"
    using j by (simp add: rb_window_def sz add.assoc)
qed

lemma dump_loop_stream:
  assumes p2: "is_power_of_2 c"
    and geo: "\<forall>t. rb_sz (shm t) = c \<and> length (rb_data (shm t)) = unat c"
    and cnt: "\<forall>t. rb_put (shm t) = g0 + of_nat (P t) \<and> rb_alloc (shm t) = g0 + of_nat (A t)"
    and ord: "\<forall>t. P t \<le> A t \<and> P t \<le> P (Suc t) \<and> A t \<le> A (Suc t)"
    and dat: "\<forall>t k. k < P t \<and> A t \<le> k + unat c \<longrightarrow>
                rb_data (shm t) ! unat ((g0 + of_nat k) AND (c - 1)) = stream k"
  shows "length (line_buffer s) = TRUSTY_LINE_BUFFER_SIZE \<Longrightarrow>
         spec_drain k stream P A (unat c) t G = Some (G', ls) \<Longrightarrow>
         \<exists>buf. length buf = TRUSTY_LINE_BUFFER_SIZE \<and>
           dump_loop rl shm t (g0 + of_nat G) s =
             Some (Inr (g0 + of_nat G',
               s\<lparr>line_buffer := buf,
                 rate_limit := snd (spec_rate_limited rl (rate_limit s) (map c_string ls)),
                 dmesg := dmesg s @ map LogLine (fst (spec_rate_limited rl (rate_limit s)
                                 (map c_string ls)))\<rparr>))"
proof (induction k arbitrary: t G s ls)
  case 0
  then show ?case by simp
next
  case (Suc k)
  let ?get = "g0 + of_nat G :: u32"
  let ?w = "map stream [G..<min (P t) (G + 255)]"
  let ?fl = "spec_first_line ?w"
  let ?n = "length ?fl"
  from spec_drain_Suc [OF Suc.prems(2)]
  have gp: "G \<le> P t" and ga: "A t \<le> G + unat c" by blast+
  from spec_drain_Suc [OF Suc.prems(2)]
  consider (stop) "P t = G" "G' = G" "ls = []"
    | (turn) ls' where "G < P t" "A (t + 2) \<le> G + unat c" "ls = ?fl # ls'"
        "spec_drain k stream P A (unat c) (t + 3) (G + ?n) = Some (G', ls')"
    by blast
  then show ?case
  proof cases
    case stop
    from stop(1) cnt have "rb_put (shm t) = ?get" by simp
    then have "dump_loop rl shm t ?get s = Some (Inr (?get, s))" by (rule dump_loop_stop)
    with stop Suc.prems(1) show ?thesis
      by (intro exI [of _ "line_buffer s"]) simp
  next
    case turn
    from p2 have nz: "c \<noteq> 0" by (simp add: is_power_of_2_def)
    with geo have ok: "ring_ok (shm (t + 1))" by (simp add: ring_ok_def)
    from ord have pa: "P t \<le> A t" and p1: "P t \<le> P (t + 1)"
      and a1: "A (t + 1) \<le> A (t + 2)" and a0: "A t \<le> A (t + 1)" by simp_all
    let ?d = "P t - G"
    have dle: "?d \<le> unat c" using pa ga by simp
    have d: "unat (rb_put (shm t) - ?get) = ?d"
      using cnt unat_of_nat_diff [OF gp dle, of g0] by simp
    have ne: "rb_put (shm t) \<noteq> ?get"
    proof
      assume "rb_put (shm t) = ?get"
      with d turn(1) show False by simp
    qed
    from stream_first_line [OF turn(1), of stream]
    have fne: "?fl \<noteq> []" and nle: "?n \<le> min ?d 255"
      and feq: "?fl = map stream [G..<G + ?n]" by blast+
    have m: "G + min ?d 255 = min (P t) (G + 255)" using turn(1) by simp
    have win: "rb_window (shm (t + 1)) ?get (min ?d 255) = ?w"
    proof -
      have sz: "rb_sz (shm (t + 1)) = c" using geo by simp
      have dt: "\<forall>k. k < P (t + 1) \<and> A (t + 1) \<le> k + unat c \<longrightarrow>
                  rb_data (shm (t + 1)) ! unat ((g0 + of_nat k) AND (c - 1)) = stream k"
        using dat by blast
      have n: "G + min ?d 255 \<le> P (t + 1)" using p1 turn(1) by simp
      have a: "A (t + 1) \<le> G + unat c" using a1 turn(2) by simp
      from stream_window [OF sz dt n a] show ?thesis by (simp only: m)
    qed
    let ?buf = "?fl @ NUL # drop (Suc ?n) (line_buffer s)"
    let ?s1 = "s\<lparr>line_buffer := ?buf, rate_limit := snd (rl (rate_limit s)),
                 dmesg := dmesg s @ (if fst (rl (rate_limit s)) then [LogLine (c_string ?buf)] else [])\<rparr>"
    have rd: "log_read_line (line_buffer s) (shm (t + 1)) (rb_put (shm t)) ?get = Some (?buf, ?n)"
      using log_read_line_char [OF ok Suc.prems(1), of "rb_put (shm t)" ?get]
      by (simp only: d win)
    have ga2: "G \<le> A (t + 2)" using gp pa a0 a1 by simp
    have ale: "A (t + 2) - G \<le> unat c" using turn(2) by simp
    have "unat (rb_alloc (shm (t + 2)) - ?get) = A (t + 2) - G"
      using cnt unat_of_nat_diff [OF ga2 ale, of g0] by simp
    with ale geo have nov: "\<not> rb_alloc (shm (t + 2)) - ?get > rb_sz (shm (t + 2))"
      by (simp add: word_less_nat_alt)
    have step: "dump_loop rl shm t ?get s = dump_loop rl shm (t + 3) (?get + of_nat ?n) ?s1"
      by (rule dump_loop_emit [OF ne rd nov])
    have g1: "?get + of_nat ?n = g0 + of_nat (G + ?n)" by simp
    have len1: "length (line_buffer ?s1) = TRUSTY_LINE_BUFFER_SIZE"
      using nle Suc.prems(1) by (simp add: TRUSTY_LINE_BUFFER_SIZE_def)
    let ?L' = "map c_string ls'"
    from Suc.IH [OF len1 turn(4)]
    obtain buf where len: "length buf = TRUSTY_LINE_BUFFER_SIZE"
      and run: "dump_loop rl shm (t + 3) (g0 + of_nat (G + ?n)) ?s1 =
         Some (Inr (g0 + of_nat G',
           ?s1\<lparr>line_buffer := buf,
             rate_limit := snd (spec_rate_limited rl (rate_limit ?s1) ?L'),
             dmesg := dmesg ?s1 @ map LogLine (fst (spec_rate_limited rl (rate_limit ?s1) ?L'))\<rparr>))"
      by blast
    have cs: "c_string ?buf = c_string ?fl" by (rule c_string_nul)
    let ?L = "map c_string ls"
    have L: "?L = c_string ?fl # ?L'" by (simp only: turn(3) list.map)
    have st: "?s1\<lparr>line_buffer := buf,
                 rate_limit := snd (spec_rate_limited rl (rate_limit ?s1) ?L'),
                 dmesg := dmesg ?s1 @ map LogLine (fst (spec_rate_limited rl (rate_limit ?s1) ?L'))\<rparr> =
              s\<lparr>line_buffer := buf,
                 rate_limit := snd (spec_rate_limited rl (rate_limit s) ?L),
                 dmesg := dmesg s @ map LogLine (fst (spec_rate_limited rl (rate_limit s) ?L))\<rparr>"
      unfolding L spec_rate_limited_Cons cs by simp
    have "dump_loop rl shm t ?get s =
            Some (Inr (g0 + of_nat G',
              s\<lparr>line_buffer := buf,
                 rate_limit := snd (spec_rate_limited rl (rate_limit s) ?L),
                 dmesg := dmesg s @ map LogLine (fst (spec_rate_limited rl (rate_limit s) ?L))\<rparr>))"
      unfolding step g1 run st ..
    with len show ?thesis by blast
  qed
qed


lemma trusty_dump_logs_stream:
  assumes p2: "is_power_of_2 c"
    and geo: "\<forall>t. rb_sz (shm t) = c \<and> length (rb_data (shm t)) = unat c"
    and cnt: "\<forall>t. rb_put (shm t) = g0 + of_nat (P t) \<and> rb_alloc (shm t) = g0 + of_nat (A t)"
    and ord: "\<forall>t. P t \<le> A t \<and> P t \<le> P (Suc t) \<and> A t \<le> A (Suc t)"
    and dat: "\<forall>t k. k < P t \<and> A t \<le> k + unat c \<longrightarrow>
                rb_data (shm t) ! unat ((g0 + of_nat k) AND (c - 1)) = stream k"
    and len: "length (line_buffer s) = TRUSTY_LINE_BUFFER_SIZE"
    and get: "s_get s = g0 + of_nat G"
    and run: "spec_drain k stream P A (unat c) 1 G = Some (G', ls)"
  shows "\<exists>buf. length buf = TRUSTY_LINE_BUFFER_SIZE \<and>
           trusty_dump_logs rl shm s =
             Some (Inr (s\<lparr>s_get := g0 + of_nat G', line_buffer := buf,
                 rate_limit := snd (spec_rate_limited rl (rate_limit s) (map c_string ls)),
                 dmesg := dmesg s @ map LogLine (fst (spec_rate_limited rl (rate_limit s)
                                 (map c_string ls)))\<rparr>))"
proof -
  from geo p2 have p: "is_power_of_2 (rb_sz (shm 0))" by simp
  from dump_loop_stream [OF p2 geo cnt ord dat len run, of rl]
  obtain buf where "length buf = TRUSTY_LINE_BUFFER_SIZE" and
    "dump_loop rl shm 1 (s_get s) s =
       Some (Inr (g0 + of_nat G', s\<lparr>line_buffer := buf,
                 rate_limit := snd (spec_rate_limited rl (rate_limit s) (map c_string ls)),
                 dmesg := dmesg s @ map LogLine (fst (spec_rate_limited rl (rate_limit s)
                                 (map c_string ls)))\<rparr>))"
    unfolding get by blast
  with p show ?thesis by (intro exI [of _ buf]) (simp add: trusty_dump_logs_def)
qed

lemma spec_repeat_Cons:
  assumes "spec_repeat k stream P A cap (t0 # ts) G = Some (G', ls)"
  shows "\<exists>G1 l1 l2. spec_drain k stream (\<lambda>t. P (t0 + t)) (\<lambda>t. A (t0 + t)) cap 1 G = Some (G1, l1) \<and>
           spec_repeat k stream P A cap ts G1 = Some (G', l2) \<and> ls = l1 @ l2"
  using assms by (auto split: option.splits)

lemma drain_repeat_stream:
  assumes p2: "is_power_of_2 c"
    and geo: "\<forall>t. rb_sz (shm t) = c \<and> length (rb_data (shm t)) = unat c"
    and cnt: "\<forall>t. rb_put (shm t) = g0 + of_nat (P t) \<and> rb_alloc (shm t) = g0 + of_nat (A t)"
    and ord: "\<forall>t. P t \<le> A t \<and> P t \<le> P (Suc t) \<and> A t \<le> A (Suc t)"
    and dat: "\<forall>t k. k < P t \<and> A t \<le> k + unat c \<longrightarrow>
                rb_data (shm t) ! unat ((g0 + of_nat k) AND (c - 1)) = stream k"
  shows "length (line_buffer s) = TRUSTY_LINE_BUFFER_SIZE \<Longrightarrow> s_get s = g0 + of_nat G \<Longrightarrow>
         spec_repeat k stream P A (unat c) ts G = Some (G', ls) \<Longrightarrow>
         \<exists>buf. length buf = TRUSTY_LINE_BUFFER_SIZE \<and>
           drain_repeat rl shm ts s =
             Some (s\<lparr>s_get := g0 + of_nat G', line_buffer := buf,
                 rate_limit := snd (spec_rate_limited rl (rate_limit s) (map c_string ls)),
                 dmesg := dmesg s @ map LogLine (fst (spec_rate_limited rl (rate_limit s)
                                 (map c_string ls)))\<rparr>)"
proof (induction ts arbitrary: s G ls)
  case Nil
  then have "G' = G" "ls = []" by simp_all
  with Nil.prems(1,2) show ?case
    by (intro exI [of _ "line_buffer s"]) simp
next
  case (Cons t0 ts)
  from spec_repeat_Cons [OF Cons.prems(3)]
  obtain G1 l1 l2 where
    d1: "spec_drain k stream (\<lambda>t. P (t0 + t)) (\<lambda>t. A (t0 + t)) (unat c) 1 G = Some (G1, l1)"
    and r2: "spec_repeat k stream P A (unat c) ts G1 = Some (G', l2)"
    and ls: "ls = l1 @ l2" by blast
  let ?shm = "\<lambda>t. shm (t0 + t)"
  have geo': "\<forall>t. rb_sz (?shm t) = c \<and> length (rb_data (?shm t)) = unat c" using geo by simp
  have cnt': "\<forall>t. rb_put (?shm t) = g0 + of_nat (P (t0 + t)) \<and>
                rb_alloc (?shm t) = g0 + of_nat (A (t0 + t))" using cnt by simp
  have ord': "\<forall>t. P (t0 + t) \<le> A (t0 + t) \<and> P (t0 + t) \<le> P (t0 + Suc t) \<and>
                A (t0 + t) \<le> A (t0 + Suc t)" using ord by simp
  have dat': "\<forall>t k. k < P (t0 + t) \<and> A (t0 + t) \<le> k + unat c \<longrightarrow>
                rb_data (?shm t) ! unat ((g0 + of_nat k) AND (c - 1)) = stream k"
    using dat by blast
  let ?r1 = "snd (spec_rate_limited rl (rate_limit s) (map c_string l1))"
  let ?m1 = "dmesg s @ map LogLine (fst (spec_rate_limited rl (rate_limit s) (map c_string l1)))"
  from trusty_dump_logs_stream [OF p2 geo' cnt' ord' dat' Cons.prems(1,2) d1, of rl]
  obtain buf1 where bl: "length buf1 = TRUSTY_LINE_BUFFER_SIZE"
    and run: "trusty_dump_logs rl ?shm s =
       Some (Inr (s\<lparr>s_get := g0 + of_nat G1, line_buffer := buf1, rate_limit := ?r1, dmesg := ?m1\<rparr>))"
    by blast
  let ?s1 = "s\<lparr>s_get := g0 + of_nat G1, line_buffer := buf1, rate_limit := ?r1, dmesg := ?m1\<rparr>"
  have i1: "length (line_buffer ?s1) = TRUSTY_LINE_BUFFER_SIZE" using bl by simp
  have i2: "s_get ?s1 = g0 + of_nat G1" by simp
  from Cons.IH [OF i1 i2 r2]
  obtain buf where len: "length buf = TRUSTY_LINE_BUFFER_SIZE"
    and rest: "drain_repeat rl shm ts ?s1 =
       Some (?s1\<lparr>s_get := g0 + of_nat G', line_buffer := buf,
                 rate_limit := snd (spec_rate_limited rl (rate_limit ?s1) (map c_string l2)),
                 dmesg := dmesg ?s1 @ map LogLine (fst (spec_rate_limited rl (rate_limit ?s1)
                                 (map c_string l2)))\<rparr>)"
    by blast
  have c: "map c_string ls = map c_string l1 @ map c_string l2" by (simp add: ls)
  have st: "?s1\<lparr>s_get := g0 + of_nat G', line_buffer := buf,
                 rate_limit := snd (spec_rate_limited rl (rate_limit ?s1) (map c_string l2)),
                 dmesg := dmesg ?s1 @ map LogLine (fst (spec_rate_limited rl (rate_limit ?s1)
                                 (map c_string l2)))\<rparr> =
            s\<lparr>s_get := g0 + of_nat G', line_buffer := buf,
                 rate_limit := snd (spec_rate_limited rl (rate_limit s) (map c_string ls)),
                 dmesg := dmesg s @ map LogLine (fst (spec_rate_limited rl (rate_limit s)
                                 (map c_string ls)))\<rparr>"
    unfolding c spec_rate_limited_append by simp
  have "drain_repeat rl shm (t0 # ts) s = drain_repeat rl shm ts ?s1" by (simp add: run)
  with rest st len show ?case by (intro exI [of _ buf]) simp
qed

lemma spec_repeat_lines:
  "spec_repeat k stream P A cap ts G = Some (G', ls) \<Longrightarrow>
   G \<le> G' \<and> concat ls = map stream [G..<G'] \<and> (ts = [] \<or> (\<exists>t. G' = P t)) \<and>
   (\<forall>l\<in>set ls. l \<noteq> [] \<and> length l \<le> 255 \<and> NL \<notin> set (butlast l)) \<and>
   (\<forall>i<length ls. last (ls ! i) = NL \<or> length (ls ! i) = 255 \<or>
      (\<exists>t. G + length (concat (take (Suc i) ls)) = P t))"
proof (induction ts arbitrary: G ls)
  case Nil
  then show ?case by simp
next
  case (Cons t0 ts)
  from spec_repeat_Cons [OF Cons.prems]
  obtain G1 l1 l2 where
    d1: "spec_drain k stream (\<lambda>t. P (t0 + t)) (\<lambda>t. A (t0 + t)) cap 1 G = Some (G1, l1)"
    and r2: "spec_repeat k stream P A cap ts G1 = Some (G', l2)"
    and ls: "ls = l1 @ l2" by blast
  from spec_drain_lines [OF d1]
  have g1: "G \<le> G1" and c1: "concat l1 = map stream [G..<G1]" and p1: "\<exists>t. G1 = P t"
    and a1: "\<forall>l\<in>set l1. l \<noteq> [] \<and> length l \<le> 255 \<and> NL \<notin> set (butlast l)"
    and b1: "\<forall>i<length l1. last (l1 ! i) = NL \<or> length (l1 ! i) = 255 \<or>
               (\<exists>t. G + length (concat (take (Suc i) l1)) = P t)"
    by blast+
  from Cons.IH [OF r2]
  have g2: "G1 \<le> G'" and c2: "concat l2 = map stream [G1..<G']"
    and p2: "ts = [] \<or> (\<exists>t. G' = P t)"
    and a2: "\<forall>l\<in>set l2. l \<noteq> [] \<and> length l \<le> 255 \<and> NL \<notin> set (butlast l)"
    and b2: "\<forall>i<length l2. last (l2 ! i) = NL \<or> length (l2 ! i) = 255 \<or>
               (\<exists>t. G1 + length (concat (take (Suc i) l2)) = P t)"
    by blast+
  have g: "G \<le> G'" using g1 g2 by simp
  have "[G..<G'] = [G..<G1] @ [G1..<G']"
    using g1 g2 by (metis le_Suc_ex upt_add_eq_append)
  then have c: "concat ls = map stream [G..<G']" unfolding ls using c1 c2 by simp
  have p: "\<exists>t. G' = P t"
  proof (cases "ts = []")
    case True
    with r2 have "G' = G1" by simp
    with p1 show ?thesis by simp
  next
    case False
    with p2 show ?thesis by simp
  qed
  have a: "\<forall>l\<in>set ls. l \<noteq> [] \<and> length l \<le> 255 \<and> NL \<notin> set (butlast l)"
    unfolding ls using a1 a2 by auto
  have n1: "length (concat l1) = G1 - G" by (simp add: c1)
  have b: "\<forall>i<length ls. last (ls ! i) = NL \<or> length (ls ! i) = 255 \<or>
               (\<exists>t. G + length (concat (take (Suc i) ls)) = P t)"
  proof (intro allI impI)
    fix i assume i: "i < length ls"
    show "last (ls ! i) = NL \<or> length (ls ! i) = 255 \<or>
               (\<exists>t. G + length (concat (take (Suc i) ls)) = P t)"
    proof (cases "i < length l1")
      case True
      then have "ls ! i = l1 ! i" "take (Suc i) ls = take (Suc i) l1"
        unfolding ls by (simp_all add: nth_append)
      with b1 [rule_format, OF True] show ?thesis by simp
    next
      case False
      let ?j = "i - length l1"
      from False i have j: "?j < length l2" unfolding ls by simp
      from False have e: "ls ! i = l2 ! ?j" unfolding ls by (simp add: nth_append)
      from False have "Suc i - length l1 = Suc ?j" by simp
      with False have "take (Suc i) ls = l1 @ take (Suc ?j) l2" unfolding ls by simp
      then have "G + length (concat (take (Suc i) ls)) =
                   G1 + length (concat (take (Suc ?j) l2))"
        using n1 g1 by simp
      with b2 [rule_format, OF j] e show ?thesis by simp
    qed
  qed
  from g c p a b show ?case by blast
qed

lemma concat_nth_segment:
  "i < length ls \<Longrightarrow>
   ls ! i = take (length (ls ! i)) (drop (length (concat (take i ls))) (concat ls))"
proof (induction ls arbitrary: i)
  case Nil
  then show ?case by simp
next
  case (Cons l ls)
  show ?case
  proof (cases i)
    case 0
    then show ?thesis by simp
  next
    case (Suc j)
    with Cons.prems have "j < length ls" by simp
    from Cons.IH [OF this] show ?thesis by (simp add: Suc)
  qed
qed

lemma concat_take_length: "length (concat (take i ls)) \<le> length (concat ls)"
proof -
  have "concat ls = concat (take i ls) @ concat (drop i ls)"
    by (metis append_take_drop_id concat_append)
  then show ?thesis by (metis length_append le_add1)
qed

lemma stream_line_segment:
  assumes cc: "concat ls = map stream [G..<G']" and g: "G \<le> G'" and i: "i < length ls"
  shows "ls ! i = map stream [G + length (concat (take i ls))..<
                              G + length (concat (take i ls)) + length (ls ! i)]"
proof -
  let ?k = "length (concat (take i ls))"
  let ?m = "length (ls ! i)"
  have "take (Suc i) ls = take i ls @ [ls ! i]" using i by (rule take_Suc_conv_app_nth)
  then have "length (concat (take (Suc i) ls)) = ?k + ?m" by simp
  moreover have "length (concat (take (Suc i) ls)) \<le> length (concat ls)"
    by (rule concat_take_length)
  moreover have "length (concat ls) = G' - G" by (simp add: cc)
  ultimately have le: "G + ?k + ?m \<le> G'" using g by simp
  have "ls ! i = take ?m (drop ?k (concat ls))" using i by (rule concat_nth_segment)
  also have "drop ?k (concat ls) = map stream [G + ?k..<G']"
    by (simp add: cc drop_map drop_upt)
  also have "take ?m (map stream [G + ?k..<G']) = map stream (take ?m [G + ?k..<G'])"
    by (rule take_map)
  also have "take ?m [G + ?k..<G'] = [G + ?k..<G + ?k + ?m]" using le by (rule take_upt)
  finally show ?thesis .
qed

lemma whole_line_kept:
  assumes cc: "concat ls = map stream [G..<G']" and g: "G \<le> G'"
    and a: "\<forall>l\<in>set ls. l \<noteq> [] \<and> length l \<le> 255 \<and> NL \<notin> set (butlast l)"
    and b: "\<forall>i<length ls. last (ls ! i) = NL \<or> length (ls ! i) = 255 \<or>
              (\<exists>t. G + length (concat (take (Suc i) ls)) = P t)"
    and i: "i < length ls" and S: "S = G + length (concat (take i ls))"
    and n: "0 < n" "n \<le> 255"
    and nl: "stream (S + (n - 1)) = NL" and nonl: "\<forall>j<n - 1. stream (S + j) \<noteq> NL"
    and nocommit: "\<forall>t m. 0 < m \<and> m < n \<longrightarrow> P t \<noteq> S + m"
  shows "ls ! i = map stream [S..<S + n]"
proof -
  let ?m = "length (ls ! i)"
  have seg: "ls ! i = map stream [S..<S + ?m]"
    unfolding S using cc g i by (rule stream_line_segment)
  from i have mem: "ls ! i \<in> set ls" by simp
  with a have ne: "ls ! i \<noteq> []" and nb: "NL \<notin> set (butlast (ls ! i))" by blast+
  from ne have m0: "0 < ?m" by simp
  have lst: "last (ls ! i) = stream (S + (?m - 1))"
  proof -
    have "last (ls ! i) = (ls ! i) ! (?m - 1)" using ne by (rule last_conv_nth)
    also have "\<dots> = map stream [S..<S + ?m] ! (?m - 1)" using seg by simp
    also have "\<dots> = stream (S + (?m - 1))" using m0 by simp
    finally show ?thesis .
  qed
  have "take (Suc i) ls = take i ls @ [ls ! i]" using i by (rule take_Suc_conv_app_nth)
  then have e: "G + length (concat (take (Suc i) ls)) = S + ?m" by (simp add: S)
  have "?m = n"
  proof (rule ccontr)
    assume neq: "?m \<noteq> n"
    show False
    proof (cases "?m < n")
      case True
      from b [rule_format, OF i] consider (x) "last (ls ! i) = NL" | (y) "?m = 255"
        | (z) t where "S + ?m = P t" unfolding e by blast
      then show False
      proof cases
        case x
        with lst have "stream (S + (?m - 1)) = NL" by simp
        moreover have "?m - 1 < n - 1" using True m0 by linarith
        ultimately show False using nonl by blast
      next
        case y
        with True n(2) show False by simp
      next
        case z
        with nocommit m0 True show False by metis
      qed
    next
      case False
      with neq have gt: "n < ?m" by simp
      have "butlast (ls ! i) = map stream [S..<S + ?m - 1]"
      proof -
        have "butlast (ls ! i) = take (?m - 1) (ls ! i)" by (rule butlast_conv_take)
        also have "\<dots> = take (?m - 1) (map stream [S..<S + ?m])" using seg by simp
        also have "\<dots> = map stream (take (?m - 1) [S..<S + ?m])" by (rule take_map)
        also have "take (?m - 1) [S..<S + ?m] = [S..<S + (?m - 1)]" by (rule take_upt) simp
        finally show ?thesis using m0 by simp
      qed
      moreover have "S + (n - 1) \<in> set [S..<S + ?m - 1]" using gt n(1) by auto
      ultimately have "stream (S + (n - 1)) \<in> set (butlast (ls ! i))" by (metis imageI set_map)
      with nl nb show False by simp
    qed
  qed
  with seg show ?thesis by simp
qed

text \<open>
  C2, as amended: let the ring keep a size \<open>c\<close> that is a power of two and a data array
  of \<open>c\<close> bytes. Let the producer's bytes be the stream \<open>stream\<close>, written from the counter
  value \<open>g0\<close> on, with \<open>P t\<close> bytes committed and \<open>A t\<close> bytes reserved by the observation
  \<open>t\<close>, neither number ever decreasing and \<open>P t \<le> A t\<close>; and let the ring hold, at every
  observation, each committed byte that lies less than \<open>c\<close> behind the reserved counter, at
  \<^verbatim>\<open>data[counter & (c - 1)]\<close>. The producer may write and commit while a drain runs. Let
  drains start at the observations \<open>ts\<close>, the first with the cursor at \<open>g0 + G\<close>, and let
  every look of a drain at the counters find consumed \<open>\<le>\<close> committed and reserved \<open>-\<close>
  consumed \<open>\<le> c\<close>, every drain catching up with the committed counter within \<open>K\<close> turns:
  that is, \<open>spec_repeat\<close> has a result \<open>(G', ls)\<close>. Then every drain returns, the cursor
  ends at \<open>g0 + G'\<close>, which is the value of the committed counter read last, and the lines
  handed to the rate limiter are \<open>ls\<close>. Put together they are exactly the bytes \<open>G\<close> to
  \<open>G' - 1\<close> of the stream: every byte is in one line, in the order written. Every line is
  nonempty, has at most 255 bytes and no newline before its last byte; it ends after a
  newline, after 255 bytes, or where the committed counter stood when its turn began, so
  a line that is committed in two parts can be printed in two pieces. Where a line handed
  over starts, a run of at most 255 bytes of the stream that ends with its only newline
  is handed over as exactly that line, unless some observation finds the committed
  counter inside it. The kernel log gets the lines the limiter allows, each printed up
  to its first NUL, hence whole when the bytes hold no NUL.
\<close>

theorem drains_deliver_stream:
  assumes "is_power_of_2 c"
    and "\<forall>t. rb_sz (shm t) = c \<and> length (rb_data (shm t)) = unat c"
    and "\<forall>t. rb_put (shm t) = g0 + of_nat (P t) \<and> rb_alloc (shm t) = g0 + of_nat (A t)"
    and "\<forall>t. P t \<le> A t \<and> P t \<le> P (Suc t) \<and> A t \<le> A (Suc t)"
    and "\<forall>t k. k < P t \<and> A t \<le> k + unat c \<longrightarrow>
           rb_data (shm t) ! unat ((g0 + of_nat k) AND (c - 1)) = stream k"
    and "length (line_buffer s) = TRUSTY_LINE_BUFFER_SIZE"
    and "s_get s = g0 + of_nat G"
    and "spec_repeat K stream P A (unat c) ts G = Some (G', ls)"
  shows "(\<exists>buf. drain_repeat rl shm ts s =
             Some (s\<lparr>s_get := g0 + of_nat G', line_buffer := buf,
                 rate_limit := snd (spec_rate_limited rl (rate_limit s) (map c_string ls)),
                 dmesg := dmesg s @ map LogLine (fst (spec_rate_limited rl (rate_limit s)
                                 (map c_string ls)))\<rparr>)) \<and>
         G \<le> G' \<and> concat ls = map stream [G..<G'] \<and> (ts = [] \<or> (\<exists>t. G' = P t)) \<and>
         (\<forall>l\<in>set ls. l \<noteq> [] \<and> length l \<le> TRUSTY_LINE_BUFFER_SIZE - 1 \<and> NL \<notin> set (butlast l)) \<and>
         (\<forall>i<length ls. last (ls ! i) = NL \<or> length (ls ! i) = TRUSTY_LINE_BUFFER_SIZE - 1 \<or>
            (\<exists>t. G + length (concat (take (Suc i) ls)) = P t)) \<and>
         (\<forall>i n. i < length ls \<and> 0 < n \<and> n \<le> TRUSTY_LINE_BUFFER_SIZE - 1 \<and>
            stream (G + length (concat (take i ls)) + (n - 1)) = NL \<and>
            (\<forall>j<n - 1. stream (G + length (concat (take i ls)) + j) \<noteq> NL) \<and>
            (\<forall>t m. 0 < m \<and> m < n \<longrightarrow> P t \<noteq> G + length (concat (take i ls)) + m) \<longrightarrow>
            ls ! i = map stream [G + length (concat (take i ls))..<
                                 G + length (concat (take i ls)) + n]) \<and>
         ((\<forall>k. G \<le> k \<and> k < G' \<longrightarrow> stream k \<noteq> NUL) \<longrightarrow> map c_string ls = ls)"
proof -
  have c: "TRUSTY_LINE_BUFFER_SIZE - 1 = 255" by (simp add: TRUSTY_LINE_BUFFER_SIZE_def)
  from drain_repeat_stream [OF assms(1-5) assms(6,7,8), of rl]
  have run: "\<exists>buf. drain_repeat rl shm ts s =
             Some (s\<lparr>s_get := g0 + of_nat G', line_buffer := buf,
                 rate_limit := snd (spec_rate_limited rl (rate_limit s) (map c_string ls)),
                 dmesg := dmesg s @ map LogLine (fst (spec_rate_limited rl (rate_limit s)
                                 (map c_string ls)))\<rparr>)"
    by blast
  note sl = spec_repeat_lines [OF assms(8)]
  from sl have cc: "concat ls = map stream [G..<G']" by blast
  have nn: "map c_string ls = ls" if n: "\<forall>k. G \<le> k \<and> k < G' \<longrightarrow> stream k \<noteq> NUL"
  proof -
    have "c_string l = l" if "l \<in> set ls" for l
    proof -
      from that have "set l \<subseteq> set (concat ls)" by auto
      then have "set l \<subseteq> stream ` {G..<G'}" unfolding cc by simp
      moreover have "NUL \<notin> stream ` {G..<G'}" using n by force
      ultimately have "NUL \<notin> set l" by blast
      then show ?thesis by (auto simp: c_string_def)
    qed
    then show ?thesis by (simp add: map_idI)
  qed
  from sl have g: "G \<le> G'"
    and a: "\<forall>l\<in>set ls. l \<noteq> [] \<and> length l \<le> 255 \<and> NL \<notin> set (butlast l)"
    and b: "\<forall>i<length ls. last (ls ! i) = NL \<or> length (ls ! i) = 255 \<or>
              (\<exists>t. G + length (concat (take (Suc i) ls)) = P t)"
    by blast+
  have wl: "\<forall>i n. i < length ls \<and> 0 < n \<and> n \<le> 255 \<and>
            stream (G + length (concat (take i ls)) + (n - 1)) = NL \<and>
            (\<forall>j<n - 1. stream (G + length (concat (take i ls)) + j) \<noteq> NL) \<and>
            (\<forall>t m. 0 < m \<and> m < n \<longrightarrow> P t \<noteq> G + length (concat (take i ls)) + m) \<longrightarrow>
            ls ! i = map stream [G + length (concat (take i ls))..<
                                 G + length (concat (take i ls)) + n]"
    using whole_line_kept [OF cc g a b _ refl] by blast
  from run g cc sl a b wl nn show ?thesis unfolding c by blast
qed


lemma live_schedule:
  "\<forall>t k. k < committed_live t \<and> committed_live t \<le> k + unat (16 :: u32) \<longrightarrow>
     rb_data (shm_live t) ! unat ((0 + of_nat k) AND (16 - 1 :: u32)) = stream_live k"
proof (intro allI impI)
  fix t k assume a: "k < committed_live t \<and> committed_live t \<le> k + unat (16 :: u32)"
  then have "k < 6" by (simp add: committed_live_def split: if_splits)
  then have "k = 0 \<or> k = 1 \<or> k = 2 \<or> k = 3 \<or> k = 4 \<or> k = 5" by arith
  then show "rb_data (shm_live t) ! unat ((0 + of_nat k) AND (16 - 1 :: u32)) = stream_live k"
    using a by (elim disjE) (simp_all add: shm_live_def stream_live_def committed_live_def split: if_splits)
qed

lemma live_spec:
  "spec_repeat 3 stream_live committed_live committed_live 16 [0, 7] 0 =
     Some (6, [''ab'' @ [NL], ''cd'' @ [NL]])"
  by (simp add: numeral_3_eq_3 committed_live_def stream_live_def TRUSTY_LINE_BUFFER_SIZE_def
        upt_conv_Cons Let_def)

theorem drains_deliver_stream_witness:
  "is_power_of_2 (16 :: u32) \<and>
   (\<forall>t. rb_sz (shm_live t) = 16 \<and> length (rb_data (shm_live t)) = unat (16 :: u32)) \<and>
   (\<forall>t. rb_put (shm_live t) = 0 + of_nat (committed_live t) \<and>
        rb_alloc (shm_live t) = 0 + of_nat (committed_live t)) \<and>
   (\<forall>t. committed_live t \<le> committed_live t \<and> committed_live t \<le> committed_live (Suc t) \<and>
        committed_live t \<le> committed_live (Suc t)) \<and>
   length (line_buffer s_init) = TRUSTY_LINE_BUFFER_SIZE \<and> s_get s_init = 0 + of_nat 0 \<and>
   spec_repeat 3 stream_live committed_live committed_live (unat (16 :: u32)) [0, 7] 0 =
     Some (6, [''ab'' @ [NL], ''cd'' @ [NL]]) \<and>
   (\<exists>buf. drain_repeat rl_allow shm_live [0, 7] s_init =
      Some (s_init\<lparr>s_get := 6, line_buffer := buf,
              dmesg := [LogLine (''ab'' @ [NL]), LogLine (''cd'' @ [NL])]\<rparr>))"
proof -
  have h1: "is_power_of_2 (16 :: u32)" by (simp add: is_power_of_2_def)
  have h2: "\<forall>t. rb_sz (shm_live t) = 16 \<and> length (rb_data (shm_live t)) = unat (16 :: u32)"
    by (simp add: shm_live_def)
  have h3: "\<forall>t. rb_put (shm_live t) = 0 + of_nat (committed_live t) \<and>
        rb_alloc (shm_live t) = 0 + of_nat (committed_live t)"
    by (simp add: shm_live_def committed_live_def)
  have h4: "\<forall>t. committed_live t \<le> committed_live t \<and> committed_live t \<le> committed_live (Suc t) \<and>
        committed_live t \<le> committed_live (Suc t)"
    by (simp add: committed_live_def)
  have h6: "length (line_buffer s_init) = TRUSTY_LINE_BUFFER_SIZE"
    by (simp add: s_init_def TRUSTY_LINE_BUFFER_SIZE_def)
  have h7: "s_get s_init = 0 + of_nat 0" by (simp add: s_init_def)
  have h8: "spec_repeat 3 stream_live committed_live committed_live (unat (16 :: u32)) [0, 7] 0 =
     Some (6, [''ab'' @ [NL], ''cd'' @ [NL]])"
    using live_spec by simp
  have i: "rate_limit s_init = ()" "dmesg s_init = []" by (simp_all add: s_init_def)
  have u: "s_init\<lparr>s_get := g, line_buffer := x, rate_limit := (), dmesg := y\<rparr> =
           s_init\<lparr>s_get := g, line_buffer := x, dmesg := y\<rparr>"
    for g x y by (simp add: s_init_def)
  from drains_deliver_stream [OF h1 h2 h3 h4 live_schedule h6 h7 h8, of rl_allow]
  have "\<exists>buf. drain_repeat rl_allow shm_live [0, 7] s_init =
      Some (s_init\<lparr>s_get := 6, line_buffer := buf,
              dmesg := [LogLine (''ab'' @ [NL]), LogLine (''cd'' @ [NL])]\<rparr>)"
    by (auto simp: rl_allow_def i c_string_def u)
  with h1 h2 h3 h4 h6 h7 h8 show ?thesis by blast
qed

text \<open>
  C2, as stated, fails: a line is also cut where a commit falls. The four bytes
  \<^verbatim>\<open>"abc\n"\<close>, a whole line far shorter than the line buffer, written as \<^verbatim>\<open>"ab"\<close> and
  \<^verbatim>\<open>"c\n"\<close> with a drain after each write, are printed as two lines. And a byte written
  after a NUL byte of its line is in no printed line: with the four bytes \<^verbatim>\<open>a\<close>, NUL,
  \<^verbatim>\<open>b\<close>, newline committed, the drain consumes all four and prints \<^verbatim>\<open>"a"\<close>.
\<close>

theorem split_line_counterexample:
  "spec_whole_line (concat [''ab'', ''c'' @ [NL]]) \<and>
   (\<exists>log' s'. drain_session rl_allow [''ab'', ''c'' @ [NL]] ring_empty s_init = Some (log', s') \<and>
      dmesg s' = [LogLine ''ab'', LogLine (''c'' @ [NL])] \<and>
      dmesg s' \<noteq> [LogLine (concat [''ab'', ''c'' @ [NL]])]) \<and>
   (\<exists>s'. trusty_dump_logs rl_allow (\<lambda>_. ring_nul) s_init = Some (Inr s') \<and>
      s_get s' = 4 \<and> dmesg s' = [LogLine ''a''])"
proof -
  let ?w1 = "''ab''" and ?w2 = "''c'' @ [NL]"
  have h1: "is_power_of_2 (rb_sz ring_empty)" by (simp add: is_power_of_2_def ring_empty_def)
  have h2: "length (rb_data ring_empty) = unat (rb_sz ring_empty)" by (simp add: ring_empty_def)
  have h3: "length (line_buffer s_init) = TRUSTY_LINE_BUFFER_SIZE"
    by (simp add: s_init_def TRUSTY_LINE_BUFFER_SIZE_def)
  have h4: "rb_put ring_empty = s_get s_init" by (simp add: ring_empty_def s_init_def)
  have h5: "rb_alloc ring_empty = s_get s_init" by (simp add: ring_empty_def s_init_def)
  have h6: "\<forall>w\<in>set [?w1, ?w2]. length w \<le> unat (rb_sz ring_empty)"
    by (simp add: ring_empty_def)
  have wl: "spec_whole_line (concat [?w1, ?w2])"
    by (simp add: spec_whole_line_def TRUSTY_LINE_BUFFER_SIZE_def)
  from drain_session_aux [OF h1 h2 h3 h4 h5 h6, of rl_allow]
  obtain log' s' where r: "drain_session rl_allow [?w1, ?w2] ring_empty s_init = Some (log', s')"
    and dm: "dmesg s' = dmesg s_init @ map LogLine (fst (spec_rate_limited rl_allow (rate_limit s_init)
                    (map c_string (concat (map spec_lines [?w1, ?w2])))))"
    by blast
  have l1: "spec_lines ?w1 = [?w1]" by (rule spec_lines_single) simp_all
  have l2: "spec_lines ?w2 = [?w2]" by (rule spec_lines_single) simp_all
  have L: "map c_string (concat (map spec_lines [?w1, ?w2])) = [?w1, ?w2]"
    using l1 l2 by (simp add: c_string_def)
  have d: "dmesg s' = [LogLine ?w1, LogLine ?w2]"
    unfolding dm L by (simp add: rl_allow_def s_init_def)
  then have "dmesg s' \<noteq> [LogLine (concat [?w1, ?w2])]" by simp
  with r d wl drain_nul_line show ?thesis by blast
qed


end
